theory Spec2Isabelle
  imports Main "HOL-Library.Sublist"
begin


section \<open>The disclosure state machine (models/fragment.js)\<close>

text \<open>
  A step block of a slide, as far as the state machine touches it: the three visibility
  classes of its class list and the number of \<open>.matcha-highlight\<close> elements that
  \<open>querySelectorAll\<close> finds inside it.
\<close>

record block =
  step_hidden :: bool
  step_entering :: bool
  step_visible :: bool
  dom_highlights :: nat

text \<open>
  The per-slide state object of \<open>Fragment.slideStates\<close>. The counters are JavaScript
  numbers that only ever hold integers. \<open>blocks\<close> is \<open>None\<close> until \<open>initSlide\<close> has
  run (\<open>state.blocks\<close> undefined). \<open>focus_mode\<close> is the class \<open>highlight-focus-mode\<close> of the
  slide element and \<open>active\<close> the highlight element carrying \<open>highlight-active\<close>, named by
  block index and index inside the block.
\<close>

record slide_state =
  currentStep :: int
  currentHighlight :: int
  totalSteps :: int
  highlightsPerStep :: "nat list"
  totalMicroSteps :: int
  currentMicroStep :: int
  blocks :: "block list option"
  focus_mode :: bool
  active :: "(nat \<times> nat) option"

datatype js_error = TypeError

text \<open>\<open>xs[i]\<close> on a JavaScript array: \<open>undefined\<close> outside the range.\<close>

definition js_nth :: "'a list \<Rightarrow> int \<Rightarrow> 'a option" where
  "js_nth xs i = (if 0 \<le> i \<and> i < int (length xs) then Some (xs ! nat i) else None)"

text \<open>\<open>state.highlightsPerStep[i] || 0\<close>\<close>

definition highlightsAt :: "nat list \<Rightarrow> int \<Rightarrow> int" where
  "highlightsAt hps i = (case js_nth hps i of None \<Rightarrow> 0 | Some h \<Rightarrow> int h)"

definition highlightsInCurrentStep :: "slide_state \<Rightarrow> int" where
  "highlightsInCurrentStep st = highlightsAt (highlightsPerStep st) (currentStep st - 1)"

text \<open>\<open>block.querySelectorAll(".matcha-highlight")[k]\<close> for the block at index \<open>bi\<close>.\<close>

definition highlightElement :: "nat \<Rightarrow> block \<Rightarrow> int \<Rightarrow> (nat \<times> nat) option" where
  "highlightElement bi b k =
     (if 0 \<le> k \<and> k < int (dom_highlights b) then Some (bi, nat k) else None)"

definition clearHighlightFocus :: "slide_state \<Rightarrow> slide_state" where
  "clearHighlightFocus st = st\<lparr>focus_mode := False, active := None\<rparr>"

text \<open>
  \<open>_activateHighlight(slideElement, highlightElement, isSwitching)\<close>. The element may be
  \<open>undefined\<close>; then the first access to its class list throws, after the focus class has
  been set (and, when not switching, after the old highlight has been cleared).
\<close>

definition activateHighlight ::
  "slide_state \<Rightarrow> (nat \<times> nat) option \<Rightarrow> bool \<Rightarrow> slide_state \<times> (js_error + unit)" where
  "activateHighlight st el isSwitching =
     (let st1 = st\<lparr>focus_mode := True\<rparr> in
      case el of
        None \<Rightarrow> (if isSwitching then (st1, Inl TypeError)
                 else (st1\<lparr>active := None\<rparr>, Inl TypeError))
      | Some e \<Rightarrow> (st1\<lparr>active := Some e\<rparr>, Inr ()))"

definition hasNextStep :: "slide_state \<Rightarrow> bool" where
  "hasNextStep st =
     (if currentHighlight st < highlightsInCurrentStep st then True
      else currentStep st < totalSteps st)"

definition hasPrevStep :: "slide_state \<Rightarrow> bool" where
  "hasPrevStep st = (if currentHighlight st > 0 then True else currentStep st > 1)"

definition show_block :: "block \<Rightarrow> block" where
  "show_block b = b\<lparr>step_entering := False, step_visible := True, step_hidden := False\<rparr>"

definition hide_block :: "block \<Rightarrow> block" where
  "hide_block b = b\<lparr>step_entering := False, step_hidden := True, step_visible := False\<rparr>"

fun reset_blocks :: "nat \<Rightarrow> block list \<Rightarrow> block list" where
  "reset_blocks i [] = []"
| "reset_blocks i (b # bs) =
     (if i = 0 then show_block b else hide_block b) # reset_blocks (Suc i) bs"

definition resetSlide :: "slide_state \<Rightarrow> slide_state" where
  "resetSlide st =
     (case blocks st of
        None \<Rightarrow> st
      | Some bs \<Rightarrow>
          (clearHighlightFocus
             (st\<lparr>currentStep := 1, currentHighlight := 0, currentMicroStep := 1\<rparr>))
            \<lparr>blocks := Some (reset_blocks 0 bs)\<rparr>)"

definition showAllSteps :: "slide_state \<Rightarrow> slide_state" where
  "showAllSteps st =
     (case blocks st of
        None \<Rightarrow> st
      | Some bs \<Rightarrow>
          (clearHighlightFocus
             (st\<lparr>currentStep := totalSteps st, currentHighlight := 0,
                  currentMicroStep := totalMicroSteps st\<rparr>))
            \<lparr>blocks := Some (map (\<lambda>b. b\<lparr>step_hidden := False, step_entering := False,
                                            step_visible := True\<rparr>) bs)\<rparr>)"

text \<open>
  \<open>nextStep\<close>. The two \<open>requestAnimationFrame\<close> callbacks that later swap
  \<open>step-entering\<close> for \<open>step-visible\<close> run after the call has returned and are not part
  of it. A thrown \<open>TypeError\<close> leaves the mutations made before it in the state.
\<close>

definition nextStep :: "slide_state \<Rightarrow> slide_state \<times> (js_error + bool)" where
  "nextStep st =
     (case blocks st of
        None \<Rightarrow> (st, Inr False)
      | Some bs \<Rightarrow>
          if currentHighlight st < highlightsInCurrentStep st then
            (let isSwitching = (currentHighlight st > 0);
                 st1 = st\<lparr>currentHighlight := currentHighlight st + 1,
                          currentMicroStep := currentMicroStep st + 1\<rparr>
             in case js_nth bs (currentStep st - 1) of
                  None \<Rightarrow> (st1, Inl TypeError)
                | Some currentBlock \<Rightarrow>
                    (case highlightElement (nat (currentStep st - 1)) currentBlock
                            (currentHighlight st1 - 1) of
                       None \<Rightarrow> (st1, Inr True)
                     | Some e \<Rightarrow> (fst (activateHighlight st1 (Some e) isSwitching), Inr True)))
          else if currentStep st \<ge> totalSteps st then (st, Inr False)
          else
            (let st1 = clearHighlightFocus st in
             case js_nth bs (currentStep st) of
               None \<Rightarrow> (st1, Inr (hasNextStep st1))
             | Some nextBlock \<Rightarrow>
                 (let st2 = st1\<lparr>blocks := Some (bs[nat (currentStep st) :=
                                   nextBlock\<lparr>step_hidden := False, step_entering := True\<rparr>]),
                               currentStep := currentStep st + 1,
                               currentHighlight := 0,
                               currentMicroStep := currentMicroStep st + 1\<rparr>
                  in (st2, Inr (hasNextStep st2)))))"

definition prevStep :: "slide_state \<Rightarrow> slide_state \<times> (js_error + bool)" where
  "prevStep st =
     (case blocks st of
        None \<Rightarrow> (st, Inr False)
      | Some bs \<Rightarrow>
          if currentHighlight st > 0 then
            (let st1 = st\<lparr>currentHighlight := currentHighlight st - 1,
                          currentMicroStep := currentMicroStep st - 1\<rparr>
             in if currentHighlight st1 > 0 then
                  (case js_nth bs (currentStep st - 1) of
                     None \<Rightarrow> (st1, Inl TypeError)
                   | Some currentBlock \<Rightarrow>
                       (case activateHighlight st1
                               (highlightElement (nat (currentStep st - 1)) currentBlock
                                  (currentHighlight st1 - 1)) True of
                          (st2, Inl e) \<Rightarrow> (st2, Inl e)
                        | (st2, Inr _) \<Rightarrow> (st2, Inr True)))
                else (clearHighlightFocus st1, Inr True))
          else if currentStep st \<le> 1 then (st, Inr False)
          else
            (case js_nth bs (currentStep st - 1) of
               None \<Rightarrow> (st, Inr (hasPrevStep st))
             | Some currentBlock \<Rightarrow>
                 (let st1 = st\<lparr>blocks := Some (bs[nat (currentStep st - 1) :=
                                   currentBlock\<lparr>step_visible := False, step_hidden := True\<rparr>]),
                               currentStep := currentStep st - 1,
                               currentMicroStep := currentMicroStep st - 1\<rparr>;
                      prevHighlights = highlightsAt (highlightsPerStep st1) (currentStep st1 - 1)
                  in if prevHighlights > 0 then
                       (let st2 = st1\<lparr>currentHighlight := prevHighlights\<rparr> in
                        case js_nth bs (currentStep st2 - 1) of
                          None \<Rightarrow> (st2, Inl TypeError)
                        | Some prevBlock \<Rightarrow>
                            (case activateHighlight st2
                                    (highlightElement (nat (currentStep st2 - 1)) prevBlock
                                       (currentHighlight st2 - 1)) False of
                               (st3, Inl e) \<Rightarrow> (st3, Inl e)
                             | (st3, Inr _) \<Rightarrow> (st3, Inr (hasPrevStep st3))))
                     else (st1, Inr (hasPrevStep st1)))))"

text \<open>
  \<open>initSlide\<close>: given the step blocks found in the built slide element and the state
  that \<open>parseAndRender\<close> may have stored for the slide index.
\<close>

definition initSlide :: "block list \<Rightarrow> slide_state option \<Rightarrow> slide_state" where
  "initSlide bs old =
     (let state = (case old of
                     Some s \<Rightarrow> s
                   | None \<Rightarrow> \<lparr>currentStep = 1, currentHighlight = 0,
                               totalSteps = int (length bs), highlightsPerStep = [],
                               totalMicroSteps = int (length bs), currentMicroStep = 1,
                               blocks = None, focus_mode = False, active = None\<rparr>);
          state1 = state\<lparr>blocks := Some bs, totalSteps := int (length bs)\<rparr>;
          state2 = (if highlightsPerStep state1 = []
                    then state1\<lparr>highlightsPerStep := map dom_highlights bs\<rparr> else state1)
      in state2\<lparr>blocks := Some (reset_blocks 0 bs)\<rparr>)"

text \<open>
  The state object that \<open>parseAndRender\<close> stores, from the highlight counts of the valid
  steps.
\<close>

definition newSlideState :: "nat list \<Rightarrow> slide_state" where
  "newSlideState hps =
     \<lparr>currentStep = 1, currentHighlight = 0, totalSteps = int (length hps),
      highlightsPerStep = hps,
      totalMicroSteps = (\<Sum>h\<leftarrow>hps. 1 + int h),
      currentMicroStep = 1, blocks = None, focus_mode = False, active = None\<rparr>"

subsection \<open>The canonical ordering of micro-steps\<close>

text \<open>
  The canonical global ordering chunk1-content, chunk1-hl1, chunk1-hl2, \<dots>,
  chunk2-content, \<dots> as a list of (chunk, highlight) pairs, for the chunks
  \<open>1..totalSteps\<close> with the highlight counts the state machine reads.
\<close>

fun canon_from :: "int \<Rightarrow> nat list \<Rightarrow> (int \<times> int) list" where
  "canon_from c [] = []"
| "canon_from c (h # hs) = map (\<lambda>j. (c, int j)) [0..<Suc h] @ canon_from (c + 1) hs"

definition chunk_highlights :: "slide_state \<Rightarrow> nat list" where
  "chunk_highlights st =
     map (\<lambda>i. nat (highlightsAt (highlightsPerStep st) (int i))) [0..<nat (totalSteps st)]"

definition canonical :: "slide_state \<Rightarrow> (int \<times> int) list" where
  "canonical st = canon_from 1 (chunk_highlights st)"

text \<open>The 1-based rank of the first occurrence of an element in a list.\<close>

fun rank_of :: "'a list \<Rightarrow> 'a \<Rightarrow> int option" where
  "rank_of [] x = None"
| "rank_of (y # ys) x = (if x = y then Some 1 else map_option (\<lambda>k. k + 1) (rank_of ys x))"

definition micro_inv :: "slide_state \<Rightarrow> bool" where
  "micro_inv st =
     (rank_of (canonical st) (currentStep st, currentHighlight st) = Some (currentMicroStep st))"

text \<open>What \<open>initSlide\<close> establishes: the blocks are recorded and counted.\<close>

definition initialised :: "slide_state \<Rightarrow> bool" where
  "initialised st =
     (case blocks st of None \<Rightarrow> False | Some bs \<Rightarrow> totalSteps st = int (length bs))"

subsection \<open>Notions used to state the properties\<close>

text \<open>The (chunk, highlight) pair of a state.\<close>

definition cursor :: "slide_state \<Rightarrow> int \<times> int" where
  "cursor st = (currentStep st, currentHighlight st)"

text \<open>The pair names a chunk of the slide and a highlight count within that chunk.\<close>

definition valid_pair :: "slide_state \<Rightarrow> bool" where
  "valid_pair st =
     (1 \<le> currentStep st \<and> currentStep st \<le> totalSteps st \<and>
      0 \<le> currentHighlight st \<and> currentHighlight st \<le> highlightsInCurrentStep st)"

text \<open>The number of micro-steps of the first \<open>n\<close> chunks.\<close>

definition steps_before :: "nat list \<Rightarrow> nat \<Rightarrow> int" where
  "steps_before hs n = (\<Sum>h\<leftarrow>take n hs. 1 + int h)"

definition rank_formula :: "slide_state \<Rightarrow> int" where
  "rank_formula st =
     steps_before (chunk_highlights st) (nat (currentStep st - 1)) + currentHighlight st + 1"

definition micro_total :: "slide_state \<Rightarrow> int" where
  "micro_total st = int (length (canonical st))"

text \<open>The states visited by \<open>n\<close> successive calls of \<open>nextStep\<close>, the start included.\<close>

fun advance_trace :: "nat \<Rightarrow> slide_state \<Rightarrow> slide_state list" where
  "advance_trace 0 st = [st]"
| "advance_trace (Suc n) st = st # advance_trace n (fst (nextStep st))"

text \<open>
  The states a slide can be in: built by \<open>parseAndRender\<close> and \<open>initSlide\<close>, then moved
  by the four operations.
\<close>

inductive reachable :: "slide_state \<Rightarrow> bool" where
  built: "reachable (initSlide bs (Some (newSlideState hps)))"
| built_fresh: "reachable (initSlide bs None)"
| advance: "reachable st \<Longrightarrow> reachable (fst (nextStep st))"
| retreat: "reachable st \<Longrightarrow> reachable (fst (prevStep st))"
| resetToFirst: "reachable st \<Longrightarrow> reachable (resetSlide st)"
| revealAll: "reachable st \<Longrightarrow> reachable (showAllSteps st)"

definition cursor_ok :: "slide_state \<Rightarrow> bool" where
  "cursor_ok st =
     (initialised st \<and> 0 \<le> currentHighlight st \<and>
      currentHighlight st \<le> highlightsInCurrentStep st \<and>
      0 \<le> currentStep st \<and> (currentStep st = 0 \<longrightarrow> totalSteps st = 0))"

subsection \<open>Two concrete slides\<close>

definition plain_block :: "nat \<Rightarrow> block" where
  "plain_block k = \<lparr>step_hidden = False, step_entering = False, step_visible = False,
                    dom_highlights = k\<rparr>"

text \<open>A slide with two chunks, two highlights in the first and none in the second.\<close>

definition slide_2_0 :: slide_state where
  "slide_2_0 = initSlide [plain_block 2, plain_block 0] (Some (newSlideState [2, 0]))"

text \<open>A slide with a single chunk holding one highlight.\<close>

definition slide_1 :: slide_state where
  "slide_1 = initSlide [plain_block 1] (Some (newSlideState [1]))"

text \<open>
  The operations above work on the state object found under \<open>slideIndex\<close>. For an index
  without a state object every operation returns at once, the two step functions with
  \<open>false\<close>, and changes nothing.
\<close>

definition at_slide ::
  "(slide_state \<Rightarrow> slide_state \<times> 'r) \<Rightarrow> 'r \<Rightarrow> (int \<rightharpoonup> slide_state) \<Rightarrow> int \<Rightarrow>
   (int \<rightharpoonup> slide_state) \<times> 'r" where
  "at_slide operation dflt slideStates slideIndex =
     (case slideStates slideIndex of
        None \<Rightarrow> (slideStates, dflt)
      | Some st \<Rightarrow> (case operation st of (st', r) \<Rightarrow> (slideStates(slideIndex \<mapsto> st'), r)))"

section \<open>JavaScript strings and regular expressions\<close>

text \<open>
  Strings are lists of 8-bit code units: the Latin-1 range of JavaScript's UTF-16 code
  units. The character classes below are JavaScript's, cut down to that range.
\<close>

definition is_space :: "char \<Rightarrow> bool" where
  "is_space c = (of_char c \<in> {9, 10, 11, 12, 13, 32, 160 :: nat})"

definition is_digit :: "char \<Rightarrow> bool" where
  "is_digit c = (48 \<le> (of_char c :: nat) \<and> (of_char c :: nat) \<le> 57)"

definition is_word :: "char \<Rightarrow> bool" where
  "is_word c =
     (is_digit c \<or> (65 \<le> (of_char c :: nat) \<and> (of_char c :: nat) \<le> 90) \<or>
      (97 \<le> (of_char c :: nat) \<and> (of_char c :: nat) \<le> 122) \<or> c = CHR ''_'')"

definition is_line_terminator :: "char \<Rightarrow> bool" where
  "is_line_terminator c = (c = CHR 0x0A \<or> c = CHR 0x0D)"

text \<open>\<open>String.prototype.trim\<close>\<close>

definition trim :: "string \<Rightarrow> string" where
  "trim s = rev (dropWhile is_space (rev (dropWhile is_space s)))"

text \<open>
  Character classes: \<open>\s\<close>, \<open>\w\<close>, \<open>\d\<close>, \<open>[\s\S]\<close>, \<open>.\<close>, a set of characters, a
  union of classes and a negated class.
\<close>

datatype cc = Space | Word | Digit | AnyChar | Dot | Chars string | Union cc cc | Neg cc

primrec in_cc :: "cc \<Rightarrow> char \<Rightarrow> bool" where
  "in_cc Space c = is_space c"
| "in_cc Word c = is_word c"
| "in_cc Digit c = is_digit c"
| "in_cc AnyChar c = True"
| "in_cc Dot c = (\<not> is_line_terminator c)"
| "in_cc (Chars s) c = (c \<in> set s)"
| "in_cc (Union a b) c = (in_cc a c \<or> in_cc b c)"
| "in_cc (Neg a) c = (\<not> in_cc a c)"

text \<open>
  The regular expressions the source uses: literals, one character of a class, greedy
  and lazy repetition of a class (\<open>c*\<close>, \<open>c*?\<close>), sequence, alternation, a greedy optional
  part, a capture group, a negative lookahead, and the anchors \<open>^\<close> and \<open>$\<close> without and
  with the \<open>m\<close> flag.
\<close>

datatype rx =
    Lit string
  | One cc
  | Star cc
  | StarLazy cc
  | Seq rx rx
  | Alt rx rx
  | Opt rx
  | Group nat rx
  | NotAhead rx
  | Bol
  | Eol
  | BolM
  | EolM

text \<open>\<open>c+\<close>, \<open>c+?\<close>, \<open>c{1,n+1}\<close> and a sequence of several parts.\<close>

definition Many1 :: "cc \<Rightarrow> rx" where
  "Many1 c = Seq (One c) (Star c)"

definition Many1Lazy :: "cc \<Rightarrow> rx" where
  "Many1Lazy c = Seq (One c) (StarLazy c)"

primrec AtMost :: "nat \<Rightarrow> cc \<Rightarrow> rx" where
  "AtMost 0 c = Lit []"
| "AtMost (Suc n) c = Opt (Seq (One c) (AtMost n c))"

fun seqs :: "rx list \<Rightarrow> rx" where
  "seqs [] = Lit []"
| "seqs [r] = r"
| "seqs (r # rs) = Seq r (seqs rs)"

text \<open>
  Matching is backtracking with continuations, as ECMA-262 defines it: a matcher gets
  the text before the position (reversed), the text from the position on, the captures
  made so far and a continuation for the rest of the pattern, and returns the first
  success in priority order, or \<open>None\<close>. The captures are an association list, the latest
  capture of a group first.
\<close>

type_synonym caps = "(nat \<times> string) list"
type_synonym mres = "string \<times> string \<times> caps"
type_synonym cont = "string \<Rightarrow> string \<Rightarrow> caps \<Rightarrow> mres option"

definition accept :: cont where
  "accept pre rest cs = Some (pre, rest, cs)"

fun star_greedy :: "cc \<Rightarrow> cont \<Rightarrow> cont" where
  "star_greedy c k pre [] cs = k pre [] cs"
| "star_greedy c k pre (x # xs) cs =
     (if in_cc c x then
        (case star_greedy c k (x # pre) xs cs of
           Some r \<Rightarrow> Some r
         | None \<Rightarrow> k pre (x # xs) cs)
      else k pre (x # xs) cs)"

fun star_lazy :: "cc \<Rightarrow> cont \<Rightarrow> cont" where
  "star_lazy c k pre [] cs = k pre [] cs"
| "star_lazy c k pre (x # xs) cs =
     (case k pre (x # xs) cs of
        Some r \<Rightarrow> Some r
      | None \<Rightarrow> if in_cc c x then star_lazy c k (x # pre) xs cs else None)"

primrec rx_match :: "rx \<Rightarrow> cont \<Rightarrow> cont" where
  "rx_match (Lit s) k pre rest cs =
     (if prefix s rest then k (rev s @ pre) (drop (length s) rest) cs else None)"
| "rx_match (One c) k pre rest cs =
     (case rest of
        [] \<Rightarrow> None
      | x # xs \<Rightarrow> if in_cc c x then k (x # pre) xs cs else None)"
| "rx_match (Star c) k pre rest cs = star_greedy c k pre rest cs"
| "rx_match (StarLazy c) k pre rest cs = star_lazy c k pre rest cs"
| "rx_match (Seq a b) k pre rest cs = rx_match a (rx_match b k) pre rest cs"
| "rx_match (Alt a b) k pre rest cs =
     (case rx_match a k pre rest cs of
        Some r \<Rightarrow> Some r
      | None \<Rightarrow> rx_match b k pre rest cs)"
| "rx_match (Opt a) k pre rest cs =
     (case rx_match a k pre rest cs of
        Some r \<Rightarrow> Some r
      | None \<Rightarrow> k pre rest cs)"
| "rx_match (Group n a) k pre rest cs =
     rx_match a (\<lambda>pre' rest' cs'.
        k pre' rest' ((n, rev (take (length pre' - length pre) pre')) # cs')) pre rest cs"
| "rx_match (NotAhead a) k pre rest cs =
     (case rx_match a accept pre rest cs of
        Some r \<Rightarrow> None
      | None \<Rightarrow> k pre rest cs)"
| "rx_match Bol k pre rest cs = (if pre = [] then k pre rest cs else None)"
| "rx_match Eol k pre rest cs = (if rest = [] then k pre rest cs else None)"
| "rx_match BolM k pre rest cs =
     (if pre = [] \<or> is_line_terminator (hd pre) then k pre rest cs else None)"
| "rx_match EolM k pre rest cs =
     (if rest = [] \<or> is_line_terminator (hd rest) then k pre rest cs else None)"

text \<open>
  \<open>RegExp.prototype.exec\<close> from a position: the match is tried at the position and then
  at each later one. The result is the number of characters skipped and the final
  matcher state.
\<close>

fun search :: "rx \<Rightarrow> string \<Rightarrow> string \<Rightarrow> (nat \<times> mres) option" where
  "search r pre [] = map_option (Pair 0) (rx_match r accept pre [] [])"
| "search r pre (x # xs) =
     (case rx_match r accept pre (x # xs) [] of
        Some res \<Rightarrow> Some (0, res)
      | None \<Rightarrow> map_option (\<lambda>(k, res). (Suc k, res)) (search r (x # pre) xs))"

text \<open>
  A match: its index, its text and its captures. \<open>group n\<close> is \<open>match[n]\<close>, \<open>None\<close> for
  \<open>undefined\<close>.
\<close>

type_synonym rmatch = "nat \<times> string \<times> caps"

definition m_index :: "rmatch \<Rightarrow> nat" where
  "m_index mt = fst mt"

definition m_text :: "rmatch \<Rightarrow> string" where
  "m_text mt = fst (snd mt)"

definition group :: "nat \<Rightarrow> rmatch \<Rightarrow> string option" where
  "group n mt = map_of (snd (snd mt)) n"

text \<open>The first match of a regular expression without the \<open>g\<close> flag.\<close>

definition first_match :: "rx \<Rightarrow> string \<Rightarrow> rmatch option" where
  "first_match r s =
     (case search r [] s of
        None \<Rightarrow> None
      | Some (k, (pre', rest', cs)) \<Rightarrow> Some (k, take (length s - k - length rest') (drop k s), cs))"

text \<open>
  All matches of a regular expression with the \<open>g\<close> flag, left to right: after a match
  the search goes on at its end, one character further after an empty match.
\<close>

function scan :: "rx \<Rightarrow> string \<Rightarrow> string \<Rightarrow> rmatch list" where
  "scan r pre rest =
     (case search r pre rest of
        None \<Rightarrow> []
      | Some (k, (pre', rest', cs)) \<Rightarrow>
          (let n = length rest - k - length rest';
               step = k + max n 1
           in (length pre + k, take n (drop k rest), cs) #
              (if rest = [] then []
               else scan r (rev (take step rest) @ pre) (drop step rest))))"
  by pat_completeness auto
termination
  by (relation "measure (\<lambda>(r, pre, rest). length rest)") (auto simp: max_def)

declare scan.simps [simp del]

definition match_all :: "rx \<Rightarrow> string \<Rightarrow> rmatch list" where
  "match_all r s = scan r [] s"

text \<open>
  \<open>String.prototype.replace\<close> with a \<open>g\<close> regular expression and a callback: the text
  between the matches is kept, each match is replaced by what the callback returns.
\<close>

fun splice :: "(rmatch \<Rightarrow> string) \<Rightarrow> string \<Rightarrow> nat \<Rightarrow> rmatch list \<Rightarrow> string" where
  "splice f s pos [] = drop pos s"
| "splice f s pos (mt # ms) =
     take (m_index mt - pos) (drop pos s) @ f mt @
     splice f s (m_index mt + length (m_text mt)) ms"

definition replace_all :: "rx \<Rightarrow> (rmatch \<Rightarrow> string) \<Rightarrow> string \<Rightarrow> string" where
  "replace_all r f s = splice f s 0 (match_all r s)"

text \<open>The same with a callback that may fail; the first failure is the result.\<close>

fun splice_opt ::
  "(rmatch \<Rightarrow> string option) \<Rightarrow> string \<Rightarrow> nat \<Rightarrow> rmatch list \<Rightarrow> string option" where
  "splice_opt f s pos [] = Some (drop pos s)"
| "splice_opt f s pos (mt # ms) =
     (case f mt of
        None \<Rightarrow> None
      | Some out \<Rightarrow>
          (case splice_opt f s (m_index mt + length (m_text mt)) ms of
             None \<Rightarrow> None
           | Some after \<Rightarrow> Some (take (m_index mt - pos) (drop pos s) @ out @ after)))"

definition replace_all_opt :: "rx \<Rightarrow> (rmatch \<Rightarrow> string option) \<Rightarrow> string \<Rightarrow> string option" where
  "replace_all_opt r f s = splice_opt f s 0 (match_all r s)"

text \<open>The numbers of the capture groups of a regular expression.\<close>

primrec rx_groups :: "rx \<Rightarrow> nat set" where
  "rx_groups (Lit s) = {}"
| "rx_groups (One c) = {}"
| "rx_groups (Star c) = {}"
| "rx_groups (StarLazy c) = {}"
| "rx_groups (Seq a b) = rx_groups a \<union> rx_groups b"
| "rx_groups (Alt a b) = rx_groups a \<union> rx_groups b"
| "rx_groups (Opt a) = rx_groups a"
| "rx_groups (Group n a) = insert n (rx_groups a)"
| "rx_groups (NotAhead a) = {}"
| "rx_groups Bol = {}"
| "rx_groups Eol = {}"
| "rx_groups BolM = {}"
| "rx_groups EolM = {}"

subsection \<open>Numbers and strings\<close>

text \<open>
  The decimal numeral of an integer, as \<open>String(n)\<close> gives it for a number of magnitude
  below \<open>10^21\<close>.
\<close>

fun digits_of :: "nat \<Rightarrow> string" where
  "digits_of n = (if n < 10 then [char_of (48 + n)] else digits_of (n div 10) @ [char_of (48 + n mod 10)])"

definition show_int :: "int \<Rightarrow> string" where
  "show_int i = (if i < 0 then CHR ''-'' # digits_of (nat (- i)) else digits_of (nat i))"

text \<open>
  The numbers that \<open>parseInt\<close> returns: \<open>NaN\<close>, the two infinities, and the doubles that are
  integers (\<open>-0\<close> is not told from \<open>0\<close>; both are falsy and not positive).
\<close>

datatype js_number = NaN | Num int | PosInfinity | NegInfinity

fun negated :: "js_number \<Rightarrow> js_number" where
  "negated NaN = NaN"
| "negated (Num i) = Num (- i)"
| "negated PosInfinity = NegInfinity"
| "negated NegInfinity = PosInfinity"

text \<open>
  The Number value of an integer that is not negative: the number itself below \<open>2^53\<close>; above, the nearest
  number with 53 significant bits, the even significand at a tie; and infinity when that
  is \<open>2^1024\<close> or more.
\<close>

function bit_length :: "int \<Rightarrow> nat" where
  "bit_length n = (if n \<le> 0 then 0 else Suc (bit_length (n div 2)))"
  by pat_completeness auto
termination
  by (relation "measure nat") auto

declare bit_length.simps [simp del]

definition to_number :: "int \<Rightarrow> js_number" where
  "to_number n =
     (if n < 2 ^ 53 then Num n
      else
        (let e = bit_length n - 53;
             q = n div 2 ^ e;
             r = n mod 2 ^ e;
             half = 2 ^ (e - 1);
             q1 = (if r > half \<or> (r = half \<and> odd q) then q + 1 else q);
             v = q1 * 2 ^ e
         in if v \<ge> 2 ^ 1024 then PosInfinity else Num v))"

text \<open>
  \<open>parseInt(s)\<close> without a radix: leading white space is skipped, a sign is read, a
  prefix \<open>0x\<close> or \<open>0X\<close> selects base 16, and the longest run of digits of the base is
  read; without a digit the result is \<open>NaN\<close>, else the Number value of the integer read.
  (ECMA-262 lets an implementation ignore decimal digits after the twentieth; like V8,
  the model does not.)
\<close>

definition digit_value :: "char \<Rightarrow> nat option" where
  "digit_value c =
     (let n = (of_char c :: nat) in
      if 48 \<le> n \<and> n \<le> 57 then Some (n - 48)
      else if 97 \<le> n \<and> n \<le> 122 then Some (n - 87)
      else if 65 \<le> n \<and> n \<le> 90 then Some (n - 55)
      else None)"

definition is_digit_of_base :: "nat \<Rightarrow> char \<Rightarrow> bool" where
  "is_digit_of_base b c = (case digit_value c of None \<Rightarrow> False | Some d \<Rightarrow> d < b)"

definition value_in_base :: "nat \<Rightarrow> string \<Rightarrow> int" where
  "value_in_base b ds =
     foldl (\<lambda>acc c. acc * int b + (case digit_value c of None \<Rightarrow> 0 | Some d \<Rightarrow> int d)) 0 ds"

definition parse_digits :: "nat \<Rightarrow> string \<Rightarrow> js_number" where
  "parse_digits b s =
     (let ds = takeWhile (is_digit_of_base b) s
      in if ds = [] then NaN else to_number (value_in_base b ds))"

definition parse_unsigned :: "string \<Rightarrow> js_number" where
  "parse_unsigned s =
     (if prefix ''0x'' s \<or> prefix ''0X'' s then parse_digits 16 (drop 2 s)
      else parse_digits 10 s)"

definition parseInt :: "string \<Rightarrow> js_number" where
  "parseInt s =
     (let t = dropWhile is_space s
      in case t of
           [] \<Rightarrow> NaN
         | c # cs \<Rightarrow>
             if c = CHR ''-'' then negated (parse_unsigned cs)
             else if c = CHR ''+'' then parse_unsigned cs
             else parse_unsigned t)"

section \<open>The component module (class Component)\<close>

definition dq :: char where
  "dq = CHR 0x22"

definition sq :: char where
  "sq = CHR 0x27"

subsection \<open>Parameter strings\<close>

text \<open>
  \<^verbatim>\<open>/([\w-]+)\s*=\s*(?:"([^"]*)"|'([^']*)'|([^,\s]+))/g\<close>
\<close>

definition paramPattern :: rx where
  "paramPattern =
     seqs [Group 1 (Many1 (Union Word (Chars ''-''))), Star Space, Lit ''='', Star Space,
           Alt (seqs [Lit [dq], Group 2 (Star (Neg (Chars [dq]))), Lit [dq]])
            (Alt (seqs [Lit [sq], Group 3 (Star (Neg (Chars [sq]))), Lit [sq]])
                 (Group 4 (Many1 (Neg (Union (Chars '','') Space)))))]"

text \<open>\<open>match[2] ?? match[3] ?? match[4]\<close>\<close>

definition param_value :: "rmatch \<Rightarrow> string option" where
  "param_value mt =
     (case group 2 mt of
        Some v \<Rightarrow> Some v
      | None \<Rightarrow> (case group 3 mt of Some v \<Rightarrow> Some v | None \<Rightarrow> group 4 mt))"

text \<open>
  \<open>params[key] = value\<close> on an object made by \<open>{}\<close>. The maps hold the own properties.
  The key \<open>__proto__\<close> is the accessor of the prototype: a string assigned to it is
  dropped and no own property is made.
\<close>

definition set_param :: "rmatch \<Rightarrow> (string \<rightharpoonup> string) \<Rightarrow> (string \<rightharpoonup> string)" where
  "set_param mt params =
     (case (group 1 mt, param_value mt) of
        (Some key, Some v) \<Rightarrow> if key = ''__proto__'' then params else params(key \<mapsto> v)
      | _ \<Rightarrow> params)"

text \<open>
  \<open>_parseParams\<close>: the object built by the \<open>exec\<close> loop, as a map from keys to values.
  The same function stands in the image and the code modules.
\<close>

definition parseParams :: "string \<Rightarrow> (string \<rightharpoonup> string)" where
  "parseParams paramStr =
     (if paramStr = [] then Map.empty
      else fold set_param (match_all paramPattern paramStr) Map.empty)"

subsection \<open>Templates\<close>

text \<open>
  The values of template variables: numbers (the built-in and the loop variables) and
  strings (parameters). \<open>JNum n\<close> is the JavaScript number \<open>n\<close>, for the integers that a
  double holds exactly and \<open>String\<close> prints in full (of magnitude below \<open>10^21\<close>).
\<close>

datatype jsval = JNum int | JStr string

fun to_string :: "jsval \<Rightarrow> string" where
  "to_string (JNum n) = show_int n"
| "to_string (JStr s) = s"

type_synonym vars = "string \<rightharpoonup> jsval"

text \<open>
  \<open>Number(a) > Number(b)\<close> and \<open>Number(a) < Number(b)\<close> on doubles are not modelled: the
  two comparisons are parameters of the interpreter.
\<close>

record num_ops =
  num_gt :: "jsval \<Rightarrow> jsval \<Rightarrow> bool"
  num_lt :: "jsval \<Rightarrow> jsval \<Rightarrow> bool"

text \<open>\<^verbatim>\<open>/\{\{#repeat\s+(\d+|[\w$]+)\}\}([\s\S]*?)\{\{\/repeat\}\}/g\<close>\<close>

definition repeatPattern :: rx where
  "repeatPattern =
     seqs [Lit ''{{#repeat'', Many1 Space,
           Group 1 (Alt (Many1 Digit) (Many1 (Union Word (Chars ''$'')))), Lit ''}}'',
           Group 2 (StarLazy AnyChar), Lit ''{{/repeat}}'']"

text \<open>\<^verbatim>\<open>/\{\{#eq\s+([\w$]+)\s+(.+?)\}\}([\s\S]*?)\{\{\/eq\}\}/g\<close>, and the same with \<open>neq\<close>\<close>

definition eqPattern :: rx where
  "eqPattern =
     seqs [Lit ''{{#eq'', Many1 Space, Group 1 (Many1 (Union Word (Chars ''$''))), Many1 Space,
           Group 2 (Many1Lazy Dot), Lit ''}}'', Group 3 (StarLazy AnyChar), Lit ''{{/eq}}'']"

definition neqPattern :: rx where
  "neqPattern =
     seqs [Lit ''{{#neq'', Many1 Space, Group 1 (Many1 (Union Word (Chars ''$''))), Many1 Space,
           Group 2 (Many1Lazy Dot), Lit ''}}'', Group 3 (StarLazy AnyChar), Lit ''{{/neq}}'']"

text \<open>\<^verbatim>\<open>/\{\{#if\s+([\w$]+)\}\}([\s\S]*?)(?:\{\{#else\}\}([\s\S]*?))?\{\{\/if\}\}/g\<close>\<close>

definition ifPattern :: rx where
  "ifPattern =
     seqs [Lit ''{{#if'', Many1 Space, Group 1 (Many1 (Union Word (Chars ''$''))), Lit ''}}'',
           Group 2 (StarLazy AnyChar),
           Opt (seqs [Lit ''{{#else}}'', Group 3 (StarLazy AnyChar)]), Lit ''{{/if}}'']"

text \<open>\<^verbatim>\<open>/\{\{#gt\s+([\w$]+)\s+(\d+)\}\}([\s\S]*?)\{\{\/gt\}\}/g\<close>, and the same with \<open>lt\<close>\<close>

definition gtPattern :: rx where
  "gtPattern =
     seqs [Lit ''{{#gt'', Many1 Space, Group 1 (Many1 (Union Word (Chars ''$''))), Many1 Space,
           Group 2 (Many1 Digit), Lit ''}}'', Group 3 (StarLazy AnyChar), Lit ''{{/gt}}'']"

definition ltPattern :: rx where
  "ltPattern =
     seqs [Lit ''{{#lt'', Many1 Space, Group 1 (Many1 (Union Word (Chars ''$''))), Many1 Space,
           Group 2 (Many1 Digit), Lit ''}}'', Group 3 (StarLazy AnyChar), Lit ''{{/lt}}'']"

text \<open>\<^verbatim>\<open>/\{\{(\$?[\w-]+)\}\}/g\<close>\<close>

definition varPattern :: rx where
  "varPattern =
     seqs [Lit ''{{'', Group 1 (Seq (Opt (Lit ''$'')) (Many1 (Union Word (Chars ''-'')))),
           Lit ''}}'']"

text \<open>\<^verbatim>\<open>value.trim().replace(/^["']|["']$/g, "")\<close>\<close>

definition quotePattern :: rx where
  "quotePattern = Alt (Seq Bol (One (Chars [dq, sq]))) (Seq (One (Chars [dq, sq])) Eol)"

definition compareValue :: "string \<Rightarrow> string" where
  "compareValue v = replace_all quotePattern (\<lambda>mt. []) (trim v)"

text \<open>
  The loop count of \<open>_processRepeat\<close>: \<open>parseInt(countExpr)\<close>, and when that is \<open>NaN\<close> and
  the context has a variable of that name, \<open>parseInt\<close> of its value.
\<close>

definition repeat_count :: "string \<Rightarrow> vars \<Rightarrow> js_number" where
  "repeat_count countExpr vs =
     (case parseInt countExpr of
        NaN \<Rightarrow> (case vs countExpr of None \<Rightarrow> NaN | Some v \<Rightarrow> parseInt (to_string v))
      | n \<Rightarrow> n)"

text \<open>
  \<open>for (let i = 0; i < count; i++) result += this._renderTemplate(content, loopVars)\<close>,
  with the number of iterations still to come, the loop variable and the result so far.
\<close>

fun repeat_loop ::
  "(string \<Rightarrow> vars \<Rightarrow> string option) \<Rightarrow> string \<Rightarrow> vars \<Rightarrow> nat \<Rightarrow> int \<Rightarrow> string \<Rightarrow> string option" where
  "repeat_loop render content vs 0 i result = Some result"
| "repeat_loop render content vs (Suc k) i result =
     (case render content (vs(''$i'' \<mapsto> JNum (i + 1), ''$i0'' \<mapsto> JNum i)) of
        None \<Rightarrow> None
      | Some out \<Rightarrow> repeat_loop render content vs k (i + 1) (result @ out))"

text \<open>
  The callback of \<open>_processRepeat\<close>. \<open>None\<close> is a call that returns nothing. The loop
  variable is a double: it counts exactly up to \<open>2^53\<close> and stays there, so the loop ends
  after \<open>count\<close> rounds for a count up to \<open>2^53\<close> and does not end for a larger one.
\<close>

definition repeat_callback ::
  "(string \<Rightarrow> vars \<Rightarrow> string option) \<Rightarrow> vars \<Rightarrow> string \<Rightarrow> string \<Rightarrow> string option" where
  "repeat_callback render vs countExpr content =
     (case repeat_count countExpr vs of
        NaN \<Rightarrow> Some []
      | NegInfinity \<Rightarrow> Some []
      | PosInfinity \<Rightarrow> None
      | Num count \<Rightarrow>
          if count \<le> 0 then Some []
          else if count \<le> 2 ^ 53 then repeat_loop render content vs (nat count) 0 []
          else None)"

text \<open>
  The six passes take the interpreter for the bodies as an argument; \<open>renderTemplate\<close>
  below passes itself.
\<close>

definition processRepeat ::
  "(string \<Rightarrow> vars \<Rightarrow> string option) \<Rightarrow> string \<Rightarrow> vars \<Rightarrow> string option" where
  "processRepeat render template vs =
     replace_all_opt repeatPattern
       (\<lambda>mt. case (group 1 mt, group 2 mt) of
               (Some countExpr, Some content) \<Rightarrow> repeat_callback render vs countExpr content
             | _ \<Rightarrow> Some [])
       template"

definition actualValue :: "vars \<Rightarrow> string \<Rightarrow> string" where
  "actualValue vs varName = (case vs varName of None \<Rightarrow> [] | Some v \<Rightarrow> to_string v)"

definition processEq ::
  "(string \<Rightarrow> vars \<Rightarrow> string option) \<Rightarrow> string \<Rightarrow> vars \<Rightarrow> string option" where
  "processEq render template vs =
     replace_all_opt eqPattern
       (\<lambda>mt. case (group 1 mt, group 2 mt, group 3 mt) of
               (Some varName, Some v, Some content) \<Rightarrow>
                 if actualValue vs varName = compareValue v then render content vs else Some []
             | _ \<Rightarrow> Some [])
       template"

definition processNeq ::
  "(string \<Rightarrow> vars \<Rightarrow> string option) \<Rightarrow> string \<Rightarrow> vars \<Rightarrow> string option" where
  "processNeq render template vs =
     replace_all_opt neqPattern
       (\<lambda>mt. case (group 1 mt, group 2 mt, group 3 mt) of
               (Some varName, Some v, Some content) \<Rightarrow>
                 if actualValue vs varName \<noteq> compareValue v then render content vs else Some []
             | _ \<Rightarrow> Some [])
       template"

text \<open>
  \<open>Boolean(value) && value !== "0" && value !== "false" && value !== ""\<close>
\<close>

fun truthy :: "jsval \<Rightarrow> bool" where
  "truthy (JNum n) = (n \<noteq> 0)"
| "truthy (JStr s) = (s \<noteq> [] \<and> s \<noteq> ''0'' \<and> s \<noteq> ''false'')"

definition processIf ::
  "(string \<Rightarrow> vars \<Rightarrow> string option) \<Rightarrow> string \<Rightarrow> vars \<Rightarrow> string option" where
  "processIf render template vs =
     replace_all_opt ifPattern
       (\<lambda>mt. case (group 1 mt, group 2 mt) of
               (Some conditionVar, Some trueContent) \<Rightarrow>
                 (let falseContent = (case group 3 mt of None \<Rightarrow> [] | Some c \<Rightarrow> c);
                      condition = (case vs conditionVar of None \<Rightarrow> False | Some v \<Rightarrow> truthy v)
                  in if condition then render trueContent vs else render falseContent vs)
             | _ \<Rightarrow> Some [])
       template"

definition numericValue :: "vars \<Rightarrow> string \<Rightarrow> jsval" where
  "numericValue vs varName = (case vs varName of None \<Rightarrow> JNum 0 | Some v \<Rightarrow> v)"

definition processGt ::
  "num_ops \<Rightarrow> (string \<Rightarrow> vars \<Rightarrow> string option) \<Rightarrow> string \<Rightarrow> vars \<Rightarrow> string option" where
  "processGt ops render template vs =
     replace_all_opt gtPattern
       (\<lambda>mt. case (group 1 mt, group 2 mt, group 3 mt) of
               (Some varName, Some v, Some content) \<Rightarrow>
                 if num_gt ops (numericValue vs varName) (JStr v) then render content vs
                 else Some []
             | _ \<Rightarrow> Some [])
       template"

definition processLt ::
  "num_ops \<Rightarrow> (string \<Rightarrow> vars \<Rightarrow> string option) \<Rightarrow> string \<Rightarrow> vars \<Rightarrow> string option" where
  "processLt ops render template vs =
     replace_all_opt ltPattern
       (\<lambda>mt. case (group 1 mt, group 2 mt, group 3 mt) of
               (Some varName, Some v, Some content) \<Rightarrow>
                 if num_lt ops (numericValue vs varName) (JStr v) then render content vs
                 else Some []
             | _ \<Rightarrow> Some [])
       template"

text \<open>The last pass of \<open>_renderTemplate\<close>: plain variables; an unknown one stays as it is.\<close>

definition substituteVars :: "string \<Rightarrow> vars \<Rightarrow> string" where
  "substituteVars template vs =
     replace_all varPattern
       (\<lambda>mt. case group 1 mt of
               None \<Rightarrow> m_text mt
             | Some varName \<Rightarrow> (case vs varName of None \<Rightarrow> m_text mt | Some v \<Rightarrow> to_string v))
       template"

text \<open>
  \<open>_renderTemplate\<close>. The bodies of the constructs are expanded by recursive calls, and
  nothing bounds their depth: a variable whose value holds a construct around the
  variable itself makes the recursion endless. The first argument is the depth of calls
  allowed; \<open>None\<close> says that it did not suffice, or that a loop in it does not end.
\<close>

primrec renderTemplate :: "num_ops \<Rightarrow> nat \<Rightarrow> string \<Rightarrow> vars \<Rightarrow> string option" where
  "renderTemplate ops 0 template vs = None"
| "renderTemplate ops (Suc depth) template vs =
     (case processRepeat (renderTemplate ops depth) template vs of None \<Rightarrow> None | Some r1 \<Rightarrow>
      case processEq (renderTemplate ops depth) r1 vs of None \<Rightarrow> None | Some r2 \<Rightarrow>
      case processNeq (renderTemplate ops depth) r2 vs of None \<Rightarrow> None | Some r3 \<Rightarrow>
      case processIf (renderTemplate ops depth) r3 vs of None \<Rightarrow> None | Some r4 \<Rightarrow>
      case processGt ops (renderTemplate ops depth) r4 vs of None \<Rightarrow> None | Some r5 \<Rightarrow>
      case processLt ops (renderTemplate ops depth) r5 vs of None \<Rightarrow> None | Some r6 \<Rightarrow>
      Some (substituteVars r6 vs))"

subsection \<open>Definitions and usages\<close>

record component =
  c_name :: string
  c_template :: string
  c_position :: string
  usageCount :: nat

type_synonym components = "string \<rightharpoonup> component"

text \<open>
  \<^verbatim>\<open>/<!--\s*define:\s*([\w-]+)(?:\s*,\s*(.+?))?\s*-->([\s\S]*?)<!--\s*enddefine\s*-->/g\<close>
\<close>

definition definePattern :: rx where
  "definePattern =
     seqs [Lit ''<!--'', Star Space, Lit ''define:'', Star Space,
           Group 1 (Many1 (Union Word (Chars ''-''))),
           Opt (seqs [Star Space, Lit '','', Star Space, Group 2 (Many1Lazy Dot)]),
           Star Space, Lit ''-->'', Group 3 (StarLazy AnyChar),
           Lit ''<!--'', Star Space, Lit ''enddefine'', Star Space, Lit ''-->'']"

definition defaultPosition :: string where
  "defaultPosition = ''bottom-right''"

text \<open>The component that one match of \<open>definePattern\<close> registers.\<close>

definition defined_component :: "rmatch \<Rightarrow> component" where
  "defined_component mt =
     (let componentName = trim (case group 1 mt of None \<Rightarrow> [] | Some n \<Rightarrow> n);
          paramsStr = (case group 2 mt of None \<Rightarrow> [] | Some p \<Rightarrow> p);
          componentTemplate = trim (case group 3 mt of None \<Rightarrow> [] | Some t \<Rightarrow> t);
          defineParams = parseParams paramsStr
      in \<lparr>c_name = componentName, c_template = componentTemplate,
          c_position = (case defineParams ''position'' of
                          None \<Rightarrow> defaultPosition
                        | Some p \<Rightarrow> if p = [] then defaultPosition else p),
          usageCount = 0\<rparr>)"

text \<open>
  \<open>this.components\<close> is a plain object: it has its own properties, the components stored
  under their names, and a prototype, at first \<open>Object.prototype\<close>. \<open>st_proto\<close> is \<open>None\<close>
  for that first prototype, and holds the component object that has replaced it.
\<close>

record store =
  st_own :: components
  st_proto :: "component option"

definition empty_store :: store where
  "empty_store = \<lparr>st_own = Map.empty, st_proto = None\<rparr>"

text \<open>
  \<open>this.components[componentName] = {...}\<close>: an own property, except for the name
  \<open>__proto__\<close>, which is the accessor of the prototype: the object assigned becomes the
  prototype of the store and no own property is made.
\<close>

definition register :: "rmatch \<Rightarrow> store \<Rightarrow> store" where
  "register mt st =
     (let c = defined_component mt in
      if c_name c = ''__proto__'' then st\<lparr>st_proto := Some c\<rparr>
      else st\<lparr>st_own := (st_own st)(c_name c \<mapsto> c)\<rparr>)"

text \<open>
  \<open>extractDefinitions\<close>: the component store after the \<open>exec\<close> loop, and the text with the
  definition blocks removed.
\<close>

definition extractDefinitions :: "store \<Rightarrow> string \<Rightarrow> store \<times> string" where
  "extractDefinitions st markdown =
     (fold register (match_all definePattern markdown) st,
      replace_all definePattern (\<lambda>mt. []) markdown)"

text \<open>
  \<open>this.components[name]\<close>, a property read: an own property first, then the properties of
  the prototype chain. What is found is a component object, or another value, of which
  only the truth value matters (it has no \<open>position\<close>), or nothing.
\<close>

datatype property = Absent | Component component | Other bool

definition objectPrototypeNames :: "string list" where
  "objectPrototypeNames =
     [''constructor'', ''hasOwnProperty'', ''isPrototypeOf'', ''propertyIsEnumerable'',
      ''toLocaleString'', ''toString'', ''valueOf'', ''__defineGetter__'', ''__defineSetter__'',
      ''__lookupGetter__'', ''__lookupSetter__'']"

definition object_member :: "string \<Rightarrow> property" where
  "object_member name = (if name \<in> set objectPrototypeNames then Other True else Absent)"

definition inherited :: "component option \<Rightarrow> string \<Rightarrow> property" where
  "inherited proto name =
     (case proto of
        None \<Rightarrow> if name = ''__proto__'' then Other True else object_member name
      | Some p \<Rightarrow>
          if name = ''__proto__'' then Component p
          else if name = ''name'' then Other (c_name p \<noteq> [])
          else if name = ''template'' then Other (c_template p \<noteq> [])
          else if name = ''position'' then Other (c_position p \<noteq> [])
          else if name = ''usageCount'' then Other (usageCount p \<noteq> 0)
          else object_member name)"

definition store_get :: "store \<Rightarrow> string \<Rightarrow> property" where
  "store_get st name =
     (case st_own st name of
        Some c \<Rightarrow> Component c
      | None \<Rightarrow> inherited (st_proto st) name)"

fun truthy_property :: "property \<Rightarrow> bool" where
  "truthy_property Absent = False"
| "truthy_property (Component c) = True"
| "truthy_property (Other b) = b"

text \<open>\<open>component.position\<close>, \<open>None\<close> for \<open>undefined\<close>\<close>

fun position_of :: "property \<Rightarrow> string option" where
  "position_of (Component c) = Some (c_position c)"
| "position_of _ = None"

text \<open>A recorded usage; its position is \<open>None\<close> when it is \<open>undefined\<close>.\<close>

record usage =
  u_name :: string
  u_params :: "string \<rightharpoonup> string"
  u_position :: "string option"
  u_slideIndex :: int
  u_totalSlides :: int

text \<open>
  \<open>renderComponents\<close>, as far as the text of a component instance goes: the variable
  context of a usage and the expanded template. (The element built from it, its
  position and the Markdown passes over the expanded text are left out.)
\<close>

definition builtinVars :: "int \<Rightarrow> int \<Rightarrow> vars" where
  "builtinVars slideIndex totalSlides =
     [''$slideIndex'' \<mapsto> JNum slideIndex, ''$slideNumber'' \<mapsto> JNum (slideIndex + 1),
      ''$totalSlides'' \<mapsto> JNum totalSlides]"

text \<open>\<open>{ ...builtinVars, ...this.globalVars, ...usage.params }\<close>\<close>

definition allVars :: "int \<Rightarrow> int \<Rightarrow> vars \<Rightarrow> (string \<rightharpoonup> string) \<Rightarrow> vars" where
  "allVars slideIndex totalSlides globalVars params =
     builtinVars slideIndex totalSlides ++ globalVars ++ (map_option JStr \<circ> params)"

definition renderedContent ::
  "num_ops \<Rightarrow> nat \<Rightarrow> components \<Rightarrow> vars \<Rightarrow> int \<Rightarrow> int \<Rightarrow> usage \<Rightarrow> string option option" where
  "renderedContent ops depth comps globalVars slideIndex totalSlides u =
     (case comps (u_name u) of
        None \<Rightarrow> None
      | Some c \<Rightarrow>
          Some (renderTemplate ops depth (c_template c)
                  (allVars slideIndex totalSlides globalVars (u_params u))))"

text \<open>The names of the built-in variables that \<open>renderComponents\<close> sets.\<close>

definition builtinNames :: "string list" where
  "builtinNames = [''$slideIndex'', ''$slideNumber'', ''$totalSlides'']"

subsection \<open>Example components\<close>

text \<open>
  Comparison operators for templates without \<^verbatim>\<open>{{#gt}}\<close> and \<^verbatim>\<open>{{#lt}}\<close>, where they are never
  consulted; two components that show a built-in variable, and a usage on the first of
  three slides.
\<close>

definition no_comparison :: num_ops where
  "no_comparison = \<lparr>num_gt = (\<lambda>a b. False), num_lt = (\<lambda>a b. False)\<rparr>"

definition pager_component :: component where
  "pager_component = \<lparr>c_name = ''pager'', c_template = ''{{$slideNumber}}'',
            c_position = ''bottom-right'', usageCount = 0\<rparr>"

definition total_component :: component where
  "total_component = \<lparr>c_name = ''total'', c_template = ''of {{$totalSlides}}.'',
            c_position = ''bottom-right'', usageCount = 0\<rparr>"

definition use_of :: "string \<Rightarrow> (string \<rightharpoonup> string) \<Rightarrow> usage" where
  "use_of name params =
     \<lparr>u_name = name, u_params = params, u_position = Some ''bottom-right'', u_slideIndex = 0,
      u_totalSlides = 3\<rparr>"

subsection \<open>The repeat construct in the words of the specification\<close>

text \<open>
  The results of several expansions joined; one that did not return leaves no result.
\<close>

fun join_options :: "string option list \<Rightarrow> string option" where
  "join_options [] = Some []"
| "join_options (None # rs) = None"
| "join_options (Some r # rs) = map_option ((@) r) (join_options rs)"

text \<open>
  The body instantiated \<open>n\<close> times: each instance is the expansion of the body under the
  context extended with \<open>$i\<close> (counted from 1) and \<open>$i0\<close> (counted from 0).
\<close>

definition spec_repeat ::
  "(string \<Rightarrow> vars \<Rightarrow> string option) \<Rightarrow> string \<Rightarrow> vars \<Rightarrow> nat \<Rightarrow> string option" where
  "spec_repeat render body vs n =
     join_options
       (map (\<lambda>j. render body (vs(''$i'' \<mapsto> JNum (int j + 1), ''$i0'' \<mapsto> JNum (int j)))) [0..<n])"

text \<open>
  The expansion of a construct with the count \<open>N\<close>: empty when \<open>N\<close> is \<open>NaN\<close> or not
  positive, the body \<open>N\<close> times for \<open>N\<close> up to \<open>2^53\<close>, and no result for a larger \<open>N\<close>.
\<close>

definition spec_construct ::
  "(string \<Rightarrow> vars \<Rightarrow> string option) \<Rightarrow> string \<Rightarrow> vars \<Rightarrow> js_number \<Rightarrow> string option" where
  "spec_construct render body vs N =
     (case N of
        NaN \<Rightarrow> Some []
      | NegInfinity \<Rightarrow> Some []
      | PosInfinity \<Rightarrow> None
      | Num n \<Rightarrow>
          if n \<le> 0 then Some []
          else if n \<le> 2 ^ 53 then spec_repeat render body vs (nat n)
          else None)"

text \<open>
  Count expressions: a run of word characters and \<open>$\<close>; among them the literal integers
  (decimal digits only) and the names of variables (which do not begin with a digit).
\<close>

definition count_chars :: "string \<Rightarrow> bool" where
  "count_chars ce = (ce \<noteq> [] \<and> list_all (\<lambda>c. is_word c \<or> c = CHR ''$'') ce)"

definition is_literal_count :: "string \<Rightarrow> bool" where
  "is_literal_count ce = (ce \<noteq> [] \<and> list_all is_digit ce)"

definition is_variable_name :: "string \<Rightarrow> bool" where
  "is_variable_name ce = (count_chars ce \<and> \<not> is_digit (hd ce))"

text \<open>The value of a decimal numeral.\<close>

definition decimal_value :: "string \<Rightarrow> int" where
  "decimal_value ds = foldl (\<lambda>a c. 10 * a + (int (of_char c) - 48)) 0 ds"

text \<open>
  The body of a construct ends at the first \<^verbatim>\<open>{{/repeat}}\<close>: no closing tag begins inside
  the body.
\<close>

definition closes_first :: "string \<Rightarrow> bool" where
  "closes_first body =
     list_all (\<lambda>i. \<not> prefix ''{{/repeat}}'' (drop i body @ ''{{/repeat}}'')) [0..<length body]"

text \<open>
  No opening tag \<^verbatim>\<open>{{#repeat\<close> begins inside a text: for the text before a construct, also
  none that runs into the opening tag of the construct.
\<close>

definition no_tag_before :: "string \<Rightarrow> bool" where
  "no_tag_before pre =
     list_all (\<lambda>i. \<not> prefix ''{{#repeat'' (drop i pre @ ''{{#repeat'')) [0..<length pre]"

definition no_tag_in :: "string \<Rightarrow> bool" where
  "no_tag_in post = list_all (\<lambda>i. \<not> prefix ''{{#repeat'' (drop i post)) [0..<length post]"

section \<open>The start of a build (Matcha.parseAndBuild, Style.extractGlobalStyles)\<close>

text \<open>\<^verbatim>\<open>markdown.match(/^([\s\S]*?)---global\s*$/m)\<close>\<close>

definition globalPattern :: rx where
  "globalPattern = seqs [BolM, Group 1 (StarLazy AnyChar), Lit ''---global'', Star Space, EolM]"

text \<open>
  The definitions region and the slides region: \<open>globalMatch[1]\<close> and
  \<open>markdown.slice(globalMatch[0].length)\<close>, or the empty string and the whole text when
  there is no match.
\<close>

definition split_global :: "string \<Rightarrow> string \<times> string" where
  "split_global markdown =
     (case first_match globalPattern markdown of
        None \<Rightarrow> ([], markdown)
      | Some globalMatch \<Rightarrow>
          ((case group 1 globalMatch of None \<Rightarrow> [] | Some g \<Rightarrow> g),
           drop (length (m_text globalMatch)) markdown))"

text \<open>
  Notions to state where the split falls: after the text \<open>t\<close> that follows a marker only
  white space stands up to the end of the line, and the marker stands at position \<open>i\<close>
  of the document with such a text after it.
\<close>

definition line_ends_after :: "string \<Rightarrow> bool" where
  "line_ends_after t =
     (dropWhile is_space t = [] \<or> (\<exists>c\<in>set (takeWhile is_space t). is_line_terminator c))"

definition globalMarker :: string where
  "globalMarker = ''---global''"

definition candidate_at :: "string \<Rightarrow> nat \<Rightarrow> bool" where
  "candidate_at doc i =
     (prefix globalMarker (drop i doc) \<and> line_ends_after (drop (i + length globalMarker) doc))"

text \<open>
  \<open>extractGlobalStyles\<close>, as far as the text goes: the directives
  \<^verbatim>\<open>/<!--\s*global-style:\s*(.+?)\s*-->/g\<close> are removed (their styles are merged into
  the style module's own table).
\<close>

definition globalStylePattern :: rx where
  "globalStylePattern =
     seqs [Lit ''<!--'', Star Space, Lit ''global-style:'', Star Space, Group 1 (Many1Lazy Dot),
           Star Space, Lit ''-->'']"

definition extractGlobalStyles :: "string \<Rightarrow> string" where
  "extractGlobalStyles markdown = replace_all globalStylePattern (\<lambda>mt. []) markdown"

text \<open>\<^verbatim>\<open>/<!--\s*@([\w-]+)(?::\s*(.+?))?\s*-->/g\<close>\<close>

definition usePattern :: rx where
  "usePattern =
     seqs [Lit ''<!--'', Star Space, Lit ''@'', Group 1 (Many1 (Union Word (Chars ''-''))),
           Opt (seqs [Lit '':'', Star Space, Group 2 (Many1Lazy Dot)]), Star Space, Lit ''-->'']"

text \<open>
  \<open>Component.processSlide\<close>: the usages of what the store holds under the names used, and
  the text without the usage markers. A usage is recorded when the value read from the
  store is truthy; its position is \<open>params.position || component.position\<close>.
\<close>

definition usage_of :: "store \<Rightarrow> int \<Rightarrow> int \<Rightarrow> rmatch \<Rightarrow> usage list" where
  "usage_of st slideIndex totalSlides mt =
     (let componentName = (case group 1 mt of None \<Rightarrow> [] | Some n \<Rightarrow> n);
          component = store_get st componentName
      in if \<not> truthy_property component then []
         else
           (let params = parseParams (case group 2 mt of None \<Rightarrow> [] | Some p \<Rightarrow> p) in
            [\<lparr>u_name = componentName, u_params = params,
              u_position = (case params ''position'' of
                              None \<Rightarrow> position_of component
                            | Some p \<Rightarrow> if p = [] then position_of component else Some p),
              u_slideIndex = slideIndex, u_totalSlides = totalSlides\<rparr>]))"

definition processSlide :: "store \<Rightarrow> string \<Rightarrow> int \<Rightarrow> int \<Rightarrow> string \<times> usage list" where
  "processSlide st content slideIndex totalSlides =
     (replace_all usePattern (\<lambda>mt. []) content,
      concat (map (usage_of st slideIndex totalSlides) (match_all usePattern content)))"

text \<open>
  Steps 0 to 0.4 of \<open>parseAndBuild\<close>: the component store, the usages of the definitions
  region, and the text that is then split into slides at the lines
  \<^verbatim>\<open>/^\s*---\s*$/gm\<close>.
\<close>

record prelude =
  p_globalSection :: string
  p_slidesSection :: string
  p_store :: store
  p_globalComponentUsages :: "usage list"
  p_processedMarkdown :: string

definition parseAndBuild_prelude :: "store \<Rightarrow> string \<Rightarrow> prelude" where
  "parseAndBuild_prelude st markdown =
     (let (globalSection, slidesSection) = split_global markdown;
          (st1, withoutDefinitions) = extractDefinitions st globalSection;
          processedGlobal = extractGlobalStyles withoutDefinitions;
          globalComponentUsages = snd (processSlide st1 processedGlobal 0 0);
          (st2, slidesWithoutDefinitions) = extractDefinitions st1 slidesSection;
          processedMarkdown = extractGlobalStyles slidesWithoutDefinitions
      in \<lparr>p_globalSection = globalSection, p_slidesSection = slidesSection,
          p_store = st2, p_globalComponentUsages = globalComponentUsages,
          p_processedMarkdown = processedMarkdown\<rparr>)"

subsection \<open>Definition blocks in a region, in the words of the specification\<close>

text \<open>
  A definition block \<^verbatim>\<open><!-- define: name --> ... <!-- enddefine -->\<close>, taken apart: the white
  space after \<^verbatim>\<open><!--\<close> and after \<^verbatim>\<open>define:\<close>, the name, the parameters when there are any
  (the white space before the comma, the white space after it, and the parameter text),
  the white space before \<^verbatim>\<open>-->\<close>, the body, and the two runs of white space of the closing
  tag.
\<close>

record def_block =
  b_ws1 :: string
  b_ws2 :: string
  b_name :: string
  b_params :: "(string \<times> string \<times> string) option"
  b_ws3 :: string
  b_body :: string
  b_ws4 :: string
  b_ws5 :: string

definition opening_tag :: "def_block \<Rightarrow> string" where
  "opening_tag b =
     ''<!--'' @ b_ws1 b @ ''define:'' @ b_ws2 b @ b_name b @
     (case b_params b of None \<Rightarrow> [] | Some (wa, wb, p) \<Rightarrow> wa @ '','' @ wb @ p) @
     b_ws3 b @ ''-->''"

definition closing_tag :: "def_block \<Rightarrow> string" where
  "closing_tag b = ''<!--'' @ b_ws4 b @ ''enddefine'' @ b_ws5 b @ ''-->''"

definition block_text :: "def_block \<Rightarrow> string" where
  "block_text b = opening_tag b @ b_body b @ closing_tag b"

text \<open>
  The parts are what they are called: white space is white space, the name is a run of
  word characters and hyphens, and a parameter text stays on its line, does not begin
  with white space and ends at the first place where \<^verbatim>\<open>-->\<close> follows after white space.
\<close>

definition block_ok :: "def_block \<Rightarrow> bool" where
  "block_ok b =
     (list_all is_space (b_ws1 b) \<and> list_all is_space (b_ws2 b) \<and> list_all is_space (b_ws3 b) \<and>
      list_all is_space (b_ws4 b) \<and> list_all is_space (b_ws5 b) \<and>
      b_name b \<noteq> [] \<and> list_all (\<lambda>c. is_word c \<or> c = CHR ''-'') (b_name b) \<and>
      (case b_params b of
         None \<Rightarrow> True
       | Some (wa, wb, p) \<Rightarrow>
           list_all is_space wa \<and> list_all is_space wb \<and> p \<noteq> [] \<and> \<not> is_space (hd p) \<and>
           list_all (\<lambda>c. \<not> is_line_terminator c) p \<and>
           list_all (\<lambda>i. \<not> prefix ''-->'' (dropWhile is_space (drop i (p @ b_ws3 b @ ''-->''))))
             [1..<length p]))"

text \<open>The component that a block defines.\<close>

definition block_component :: "def_block \<Rightarrow> component" where
  "block_component b =
     \<lparr>c_name = b_name b, c_template = trim (b_body b),
      c_position =
        (case b_params b of
           None \<Rightarrow> defaultPosition
         | Some (wa, wb, p) \<Rightarrow>
             (case parseParams p ''position'' of
                None \<Rightarrow> defaultPosition
              | Some q \<Rightarrow> if q = [] then defaultPosition else q)),
      usageCount = 0\<rparr>"

text \<open>
  An opening tag \<^verbatim>\<open><!--\<close>, white space, \<^verbatim>\<open>define:\<close> at the start of a text, and a closing tag
  \<^verbatim>\<open><!--\<close>, white space, \<^verbatim>\<open>enddefine\<close>, white space, \<^verbatim>\<open>-->\<close> at the start of a text; and texts
  in which none begins before a position.
\<close>

definition opens_definition :: "string \<Rightarrow> bool" where
  "opens_definition v = (prefix ''<!--'' v \<and> prefix ''define:'' (dropWhile is_space (drop 4 v)))"

definition closes_definition :: "string \<Rightarrow> bool" where
  "closes_definition v =
     (prefix ''<!--'' v \<and>
      (let v1 = dropWhile is_space (drop 4 v)
       in prefix ''enddefine'' v1 \<and> prefix ''-->'' (dropWhile is_space (drop 9 v1))))"

definition no_opening_before :: "nat \<Rightarrow> string \<Rightarrow> bool" where
  "no_opening_before n t = list_all (\<lambda>i. \<not> opens_definition (drop i t)) [0..<n]"

definition no_closing_before :: "nat \<Rightarrow> string \<Rightarrow> bool" where
  "no_closing_before n t = list_all (\<lambda>i. \<not> closes_definition (drop i t)) [0..<n]"

text \<open>
  A region as a sequence of texts and blocks with a last text: no opening tag begins
  inside a text, and the body of a block ends at the first closing tag.
\<close>

fun region_text :: "(string \<times> def_block) list \<Rightarrow> string \<Rightarrow> string" where
  "region_text [] final = final"
| "region_text ((a, b) # items) final = a @ block_text b @ region_text items final"

fun well_formed :: "(string \<times> def_block) list \<Rightarrow> string \<Rightarrow> bool" where
  "well_formed [] final = no_opening_before (length final) final"
| "well_formed ((a, b) # items) final =
     (block_ok b \<and>
      no_opening_before (length a) (a @ block_text b @ region_text items final) \<and>
      no_closing_before (length (b_body b))
        (b_body b @ closing_tag b @ region_text items final) \<and>
      well_formed items final)"

text \<open>
  The components of the blocks stored under their names, a later one replacing an
  earlier one of its name, and the region without its blocks.
\<close>

definition store_blocks :: "def_block list \<Rightarrow> components \<Rightarrow> components" where
  "store_blocks bs comps = fold (\<lambda>b m. m(b_name b \<mapsto> block_component b)) bs comps"

definition without_blocks :: "(string \<times> def_block) list \<Rightarrow> string \<Rightarrow> string" where
  "without_blocks items final = concat (map fst items) @ final"

text \<open>
  The parts of \<open>definePattern\<close> after the name: the closing tag, the end of the opening tag
  with the body and the closing tag, and the parameters.
\<close>

abbreviation closePart :: rx where
  "closePart \<equiv> Seq (Lit ''<!--'') (Seq (Star Space) (Seq (Lit ''enddefine'') (Seq (Star Space) (Lit ''-->''))))"

abbreviation tailPart :: rx where
  "tailPart \<equiv> Seq (Star Space) (Seq (Lit ''-->'') (Seq (Group 3 (StarLazy AnyChar)) closePart))"

abbreviation paramsPart :: rx where
  "paramsPart \<equiv> Seq (Star Space) (Seq (Lit '','') (Seq (Star Space) (Group 2 (Many1Lazy Dot))))"

subsection \<open>Example blocks\<close>

text \<open>
  A block with one space at each place where white space may stand; a block whose body
  holds a \<^verbatim>\<open>---global\<close> line; a block with a position; and a block without any white space.
\<close>

definition simple_block :: "string \<Rightarrow> string \<Rightarrow> def_block" where
  "simple_block name body =
     \<lparr>b_ws1 = '' '', b_ws2 = '' '', b_name = name, b_params = None, b_ws3 = '' '',
      b_body = body, b_ws4 = '' '', b_ws5 = '' ''\<rparr>"

definition spanning_block :: def_block where
  "spanning_block = simple_block ''a'' (''X'' @ [CHR 0x0A] @ ''---global'' @ [CHR 0x0A] @ ''Y'')"

definition positioned_block :: def_block where
  "positioned_block = (simple_block ''a'' ''S'')\<lparr>b_params := Some ([], '' '', ''position=top'')\<rparr>"

definition tight_block :: def_block where
  "tight_block =
     \<lparr>b_ws1 = [], b_ws2 = [], b_name = ''b'', b_params = None, b_ws3 = [],
      b_body = ''B'', b_ws4 = [], b_ws5 = []\<rparr>"

section \<open>Step markers, highlight spans and code blocks\<close>

subsection \<open>Fragment.parseAndRender: the steps of a slide text\<close>

text \<open>
  \<^verbatim>\<open>/<!--\s*step(?::\s*([\w-]+))?(?:\s*,\s*duration\s*=\s*(\d+))?\s*-->/g\<close>
\<close>

definition stepPattern :: rx where
  "stepPattern =
     seqs [Lit ''<!--'', Star Space, Lit ''step'',
           Opt (seqs [Lit '':'', Star Space, Group 1 (Many1 (Union Word (Chars ''-'')))]),
           Opt (seqs [Star Space, Lit '','', Star Space, Lit ''duration'', Star Space, Lit ''='',
                      Star Space, Group 2 (Many1 Digit)]),
           Star Space, Lit ''-->'']"

text \<open>\<^verbatim>\<open>/<(?!\/|!--)([^<>]+)>/g\<close>, the default \<open>highlightPattern\<close>\<close>

definition highlightPattern :: rx where
  "highlightPattern =
     seqs [Lit ''<'', NotAhead (Alt (Lit ''/'') (Lit ''!--'')),
           Group 1 (Many1 (Neg (Chars ''<>''))), Lit ''>'']"

record step =
  s_content :: string
  s_effect :: string
  s_duration :: js_number
  nextEffect :: "string option"
  nextDuration :: "js_number option"

text \<open>The two options of the fragment module that the parsing reads.\<close>

record fragment_options =
  defaultEffect :: string
  duration :: int

definition default_options :: fragment_options where
  "default_options = \<lparr>defaultEffect = ''fade'', duration = 500\<rparr>"

text \<open>
  \<open>e || d\<close> on a string that may be undefined, and on a number that may be: the
  undefined value, \<open>NaN\<close> and 0 give way to the default.
\<close>

definition string_or :: "string option \<Rightarrow> string \<Rightarrow> string" where
  "string_or e d = (case e of None \<Rightarrow> d | Some s \<Rightarrow> if s = [] then d else s)"

definition number_or :: "js_number option \<Rightarrow> int \<Rightarrow> js_number" where
  "number_or n d =
     (case n of
        None \<Rightarrow> Num d
      | Some x \<Rightarrow> if x = NaN \<or> x = Num 0 then Num d else x)"

definition matchedEffect :: "fragment_options \<Rightarrow> rmatch \<Rightarrow> string" where
  "matchedEffect opts mt = string_or (group 1 mt) (defaultEffect opts)"

text \<open>\<open>match[2] ? parseInt(match[2]) : this.options.duration\<close>\<close>

definition matchedDuration :: "fragment_options \<Rightarrow> rmatch \<Rightarrow> js_number" where
  "matchedDuration opts mt =
     (case group 2 mt of
        None \<Rightarrow> Num (duration opts)
      | Some d \<Rightarrow> if d = [] then Num (duration opts) else parseInt d)"

text \<open>One round of the \<open>while\<close> loop over the step markers: the steps and \<open>lastIndex\<close>.\<close>

definition step_round ::
  "fragment_options \<Rightarrow> string \<Rightarrow> rmatch \<Rightarrow> step list \<times> nat \<Rightarrow> step list \<times> nat" where
  "step_round opts content mt acc =
     (let steps = fst acc; lastIndex = snd acc;
          beforeContent = take (m_index mt - lastIndex) (drop lastIndex content);
          steps1 =
            (if m_index mt > lastIndex \<and> trim beforeContent \<noteq> [] then
               steps @
               [\<lparr>s_content = beforeContent,
                  s_effect = (if steps = [] then ''none''
                              else string_or (nextEffect (last steps)) (defaultEffect opts)),
                  s_duration = (if steps = [] then Num 0
                                else number_or (nextDuration (last steps)) (duration opts)),
                  nextEffect = None, nextDuration = None\<rparr>]
             else steps);
          steps2 =
            (if steps1 \<noteq> [] then
               butlast steps1 @
               [(last steps1)\<lparr>nextEffect := Some (matchedEffect opts mt),
                               nextDuration := Some (matchedDuration opts mt)\<rparr>]
             else
               [\<lparr>s_content = [], s_effect = ''none'', s_duration = Num 0,
                  nextEffect = Some (matchedEffect opts mt),
                  nextDuration = Some (matchedDuration opts mt)\<rparr>])
      in (steps2, m_index mt + length (m_text mt)))"

text \<open>The steps after the loop, with the rest of the text and the fallback of a single step.\<close>

definition all_steps :: "fragment_options \<Rightarrow> string \<Rightarrow> step list" where
  "all_steps opts content =
     (let acc = foldl (\<lambda>a mt. step_round opts content mt a) ([], 0)
                  (match_all stepPattern content);
          steps = fst acc; lastIndex = snd acc;
          remainingContent = drop lastIndex content;
          steps1 =
            (if lastIndex < length content \<and> trim remainingContent \<noteq> [] then
               steps @
               [\<lparr>s_content = remainingContent,
                  s_effect = string_or (if steps = [] then None else nextEffect (last steps))
                               (defaultEffect opts),
                  s_duration = number_or (if steps = [] then None else nextDuration (last steps))
                                 (duration opts),
                  nextEffect = None, nextDuration = None\<rparr>]
             else steps)
      in if steps1 = [] then
           [\<lparr>s_content = content, s_effect = ''none'', s_duration = Num 0,
              nextEffect = None, nextDuration = None\<rparr>]
         else steps1)"

definition validSteps :: "fragment_options \<Rightarrow> string \<Rightarrow> step list" where
  "validSteps opts content = filter (\<lambda>s. trim (s_content s) \<noteq> []) (all_steps opts content)"

text \<open>\<open>_countHighlights\<close>\<close>

definition countHighlights :: "string \<Rightarrow> nat" where
  "countHighlights content = length (match_all highlightPattern content)"

text \<open>The state that \<open>parseAndRender\<close> stores for the slide.\<close>

definition parsedSlideState :: "fragment_options \<Rightarrow> string \<Rightarrow> slide_state" where
  "parsedSlideState opts content =
     newSlideState (map (\<lambda>s. countHighlights (s_content s)) (validSteps opts content))"

subsection \<open>Fragment._parseHighlights\<close>

text \<open>
  \<^verbatim>\<open>/^(\s*(?:#{1,6}|>|\*|\+|-|\d+\.)\s+)([\s\S]+)$/\<close>
\<close>

definition mdPrefixPattern :: rx where
  "mdPrefixPattern =
     seqs [Bol,
           Group 1 (seqs [Star Space,
                          Alt (Seq (One (Chars ''#'')) (AtMost 5 (Chars ''#'')))
                           (Alt (Lit ''>'') (Alt (Lit ''*'') (Alt (Lit ''+'') (Alt (Lit ''-'')
                              (Seq (Many1 Digit) (Lit ''.'')))))),
                          Many1 Space]),
           Group 2 (Many1 AnyChar), Eol]"

definition span_open :: "nat \<Rightarrow> string" where
  "span_open highlightIndex =
     ''<span class='' @ [dq] @ ''matcha-highlight'' @ [dq] @ '' data-highlight-index='' @ [dq] @
     show_int (int highlightIndex) @ [dq] @ ''>''"

definition wrapped :: "nat \<Rightarrow> string \<Rightarrow> string" where
  "wrapped highlightIndex text =
     (case first_match mdPrefixPattern text of
        Some mdPrefixMatch \<Rightarrow>
          (case group 1 mdPrefixMatch of None \<Rightarrow> [] | Some p \<Rightarrow> p) @ span_open highlightIndex @
          (case group 2 mdPrefixMatch of None \<Rightarrow> [] | Some b \<Rightarrow> b) @ ''</span>''
      | None \<Rightarrow> span_open highlightIndex @ text @ ''</span>'')"

text \<open>The replacement of the matches, with the running \<open>highlightIndex\<close>.\<close>

fun wrap_matches :: "string \<Rightarrow> nat \<Rightarrow> nat \<Rightarrow> rmatch list \<Rightarrow> string" where
  "wrap_matches s pos highlightIndex [] = drop pos s"
| "wrap_matches s pos highlightIndex (mt # ms) =
     take (m_index mt - pos) (drop pos s) @
     wrapped highlightIndex (case group 1 mt of None \<Rightarrow> [] | Some t \<Rightarrow> t) @
     wrap_matches s (m_index mt + length (m_text mt)) (Suc highlightIndex) ms"

definition parseHighlights :: "string \<Rightarrow> string" where
  "parseHighlights content = wrap_matches content 0 0 (match_all highlightPattern content)"

text \<open>
  What \<open>parseAndRender\<close> hands to the rendering callback, step by step: the text of each
  valid step with its highlights wrapped.
\<close>

definition highlightedSteps :: "fragment_options \<Rightarrow> string \<Rightarrow> string list" where
  "highlightedSteps opts content = map (\<lambda>s. parseHighlights (s_content s)) (validSteps opts content)"

subsection \<open>MarkdowmParse.parse: the protection of code blocks\<close>

text \<open>\<^verbatim>\<open>/```(\w*)\n([\s\S]*?)```/g\<close>\<close>

definition codeBlockPattern :: rx where
  "codeBlockPattern =
     seqs [Lit ''```'', Group 1 (Star Word), Lit [CHR 0x0A], Group 2 (StarLazy AnyChar),
           Lit ''```'']"

definition escapeHtml :: "string \<Rightarrow> string" where
  "escapeHtml text =
     concat (map (\<lambda>c. if c = CHR ''&'' then ''&amp;''
                      else if c = CHR ''<'' then ''&lt;''
                      else if c = CHR ''>'' then ''&gt;''
                      else if c = dq then ''&quot;''
                      else if c = sq then ''&#039;''
                      else [c]) text)"

definition placeholder :: "nat \<Rightarrow> string" where
  "placeholder n = ''%%%MATCHA-CODE-BLOCK-'' @ show_int (int n) @ ''%%%''"

definition codeBlockHtml :: "rmatch \<Rightarrow> string" where
  "codeBlockHtml mt =
     ''<pre><code class='' @ [dq] @ ''language-'' @
     string_or (group 1 mt) ''text'' @ [dq] @ ''>'' @
     escapeHtml (trim (case group 2 mt of None \<Rightarrow> [] | Some c \<Rightarrow> c)) @ ''</code></pre>''"

fun protect_matches :: "string \<Rightarrow> nat \<Rightarrow> nat \<Rightarrow> rmatch list \<Rightarrow> string" where
  "protect_matches s pos n [] = drop pos s"
| "protect_matches s pos n (mt # ms) =
     take (m_index mt - pos) (drop pos s) @ placeholder n @
     protect_matches s (m_index mt + length (m_text mt)) (Suc n) ms"

text \<open>
  Step 1 of \<open>parse\<close>: the trimmed text with each fenced block replaced by its
  placeholder, and the list \<open>codeBlocks\<close>.
\<close>

definition protectCodeBlocks :: "string \<Rightarrow> string \<times> string list" where
  "protectCodeBlocks text =
     (let html = trim text; ms = match_all codeBlockPattern html
      in (protect_matches html 0 0 ms, map codeBlockHtml ms))"

subsection \<open>Example texts\<close>

text \<open>
  A slide text with a fenced block that holds a tag and a step marker, and with a tag in
  inline code after it.
\<close>

definition code_slide :: string where
  "code_slide = ''Markers:'' @ [CHR 0x0A] @ ''```html'' @ [CHR 0x0A] @ ''<p>'' @ [CHR 0x0A] @
                ''<!-- step -->'' @ [CHR 0x0A] @ ''```'' @ [CHR 0x0A] @ ''and `<b>`.''"

text \<open>A fenced block that holds a tag, and the same followed by a second step.\<close>

definition fence_slide :: string where
  "fence_slide = ''```html'' @ [CHR 0x0A] @ ''<p>'' @ [CHR 0x0A] @ ''```''"

definition fence_then_step :: string where
  "fence_then_step = fence_slide @ [CHR 0x0A] @ ''<!-- step -->'' @ [CHR 0x0A] @ ''Next''"

section \<open>Properties of the disclosure state machine\<close>


lemma rank_of_append:
  "rank_of (xs @ ys) x =
     (case rank_of xs x of Some k \<Rightarrow> Some k
      | None \<Rightarrow> map_option (\<lambda>k. k + int (length xs)) (rank_of ys x))"
  by (induction xs) (auto split: option.splits simp: option.map_ident option.map_comp comp_def ac_simps)

lemma rank_of_row_aux:
  "rank_of (map (\<lambda>j. (c, int j)) [a..<a + n]) (c', h') =
     (if c' = c \<and> int a \<le> h' \<and> h' < int a + int n then Some (h' - int a + 1) else None)"
proof (induction n arbitrary: a)
  case 0
  then show ?case by simp
next
  case (Suc n)
  have "[a..<a + Suc n] = a # [Suc a..<Suc a + n]"
    by (simp add: upt_conv_Cons)
  then show ?case using Suc[of "Suc a"] by auto
qed

lemma rank_of_row:
  "rank_of (map (\<lambda>j. (c, int j)) [0..<Suc h]) (c', h') =
     (if c' = c \<and> 0 \<le> h' \<and> h' \<le> int h then Some (h' + 1) else None)"
  using rank_of_row_aux[of c 0 "Suc h" c' h'] by auto

lemma rank_of_canon_from:
  "rank_of (canon_from c hs) (c', h') =
     (if c \<le> c' \<and> c' < c + int (length hs) \<and> 0 \<le> h' \<and> h' \<le> int (hs ! nat (c' - c))
      then Some (steps_before hs (nat (c' - c)) + h' + 1) else None)"
proof (induction hs arbitrary: c)
  case Nil
  then show ?case by simp
next
  case (Cons h hs)
  show ?case
  proof (cases "c' = c")
    case True
    have later: "rank_of (canon_from (c + 1) hs) (c', h') = None"
      unfolding Cons.IH using True by simp
    show ?thesis
      using True later
      by (simp add: rank_of_append rank_of_row steps_before_def del: upt_Suc)
  next
    case False
    have row: "rank_of (map (\<lambda>j. (c, int j)) [0..<Suc h]) (c', h') = None"
      using False by (simp add: rank_of_row del: upt_Suc)
    show ?thesis
    proof (cases "c < c'")
      case True
      then have n: "nat (c' - c) = Suc (nat (c' - (c + 1)))" by simp
      show ?thesis
        using True False
        apply (simp only: canon_from.simps rank_of_append row option.case Cons.IH n)
        apply (auto simp: steps_before_def simp del: upt_Suc)
        done
    next
      case False2: False
      then show ?thesis using False
        by (simp only: canon_from.simps rank_of_append row option.case Cons.IH) (auto simp del: upt_Suc)
    qed
  qed
qed

lemma length_canon_from: "int (length (canon_from c hs)) = steps_before hs (length hs)"
  by (induction hs arbitrary: c) (auto simp: steps_before_def)

lemma highlightsAt_nonneg: "0 \<le> highlightsAt hps i"
  by (simp add: highlightsAt_def split: option.splits)

lemma length_chunk_highlights: "length (chunk_highlights st) = nat (totalSteps st)"
  by (simp add: chunk_highlights_def)

lemma chunk_highlights_nth:
  "1 \<le> c \<Longrightarrow> c \<le> totalSteps st \<Longrightarrow>
   int (chunk_highlights st ! nat (c - 1)) = highlightsAt (highlightsPerStep st) (c - 1)"
  by (simp add: chunk_highlights_def highlightsAt_nonneg)

lemma micro_inv_iff:
  "micro_inv st \<longleftrightarrow> valid_pair st \<and> currentMicroStep st = rank_formula st"
proof -
  have len: "int (length (chunk_highlights st)) = (if 0 \<le> totalSteps st then totalSteps st else 0)"
    by (simp add: length_chunk_highlights)
  show ?thesis
  proof (cases "1 \<le> currentStep st \<and> currentStep st \<le> totalSteps st")
    case True
    then have nth: "int (chunk_highlights st ! nat (currentStep st - 1)) = highlightsInCurrentStep st"
      by (simp add: chunk_highlights_nth highlightsInCurrentStep_def)
    show ?thesis
      using True nth len
      by (auto simp: micro_inv_def canonical_def rank_of_canon_from valid_pair_def rank_formula_def)
  next
    case False
    then show ?thesis
      using len
      by (auto simp: micro_inv_def canonical_def rank_of_canon_from valid_pair_def)
  qed
qed

lemma steps_before_Suc:
  "n < length hs \<Longrightarrow> steps_before hs (Suc n) = steps_before hs n + 1 + int (hs ! n)"
  by (simp add: steps_before_def take_Suc_conv_app_nth)

lemma chunk_highlights_cong:
  "highlightsPerStep st' = highlightsPerStep st \<Longrightarrow> totalSteps st' = totalSteps st \<Longrightarrow>
   chunk_highlights st' = chunk_highlights st"
  by (simp add: chunk_highlights_def)

lemma nextStep_static:
  "highlightsPerStep (fst (nextStep st)) = highlightsPerStep st"
  "totalSteps (fst (nextStep st)) = totalSteps st"
  "totalMicroSteps (fst (nextStep st)) = totalMicroSteps st"
  by (auto simp: nextStep_def Let_def activateHighlight_def clearHighlightFocus_def
           split: option.splits)

lemma prevStep_static:
  "highlightsPerStep (fst (prevStep st)) = highlightsPerStep st"
  "totalSteps (fst (prevStep st)) = totalSteps st"
  "totalMicroSteps (fst (prevStep st)) = totalMicroSteps st"
  by (auto simp: prevStep_def Let_def activateHighlight_def clearHighlightFocus_def
           split: option.splits prod.splits sum.splits if_splits)

lemma nextStep_cursor:
  "(currentStep (fst (nextStep st)), currentHighlight (fst (nextStep st)),
    currentMicroStep (fst (nextStep st))) =
   (case blocks st of
      None \<Rightarrow> (currentStep st, currentHighlight st, currentMicroStep st)
    | Some bs \<Rightarrow>
        if currentHighlight st < highlightsInCurrentStep st
        then (currentStep st, currentHighlight st + 1, currentMicroStep st + 1)
        else if currentStep st < totalSteps st \<and> js_nth bs (currentStep st) \<noteq> None
        then (currentStep st + 1, 0, currentMicroStep st + 1)
        else (currentStep st, currentHighlight st, currentMicroStep st))"
  by (auto simp: nextStep_def Let_def activateHighlight_def clearHighlightFocus_def
           split: option.splits)

lemma prevStep_cursor:
  "(currentStep (fst (prevStep st)), currentHighlight (fst (prevStep st)),
    currentMicroStep (fst (prevStep st))) =
   (case blocks st of
      None \<Rightarrow> (currentStep st, currentHighlight st, currentMicroStep st)
    | Some bs \<Rightarrow>
        if currentHighlight st > 0
        then (currentStep st, currentHighlight st - 1, currentMicroStep st - 1)
        else if currentStep st > 1 \<and> js_nth bs (currentStep st - 1) \<noteq> None
        then (currentStep st - 1,
              (if highlightsAt (highlightsPerStep st) (currentStep st - 2) > 0
               then highlightsAt (highlightsPerStep st) (currentStep st - 2)
               else currentHighlight st),
              currentMicroStep st - 1)
        else (currentStep st, currentHighlight st, currentMicroStep st))"
  by (auto simp: prevStep_def Let_def activateHighlight_def clearHighlightFocus_def
           split: option.splits prod.splits sum.splits)

lemma rank_formula_next_chunk:
  assumes "1 \<le> c" "c < totalSteps st"
  shows "steps_before (chunk_highlights st) (nat c) =
         steps_before (chunk_highlights st) (nat (c - 1)) + 1
           + highlightsAt (highlightsPerStep st) (c - 1)"
proof -
  have n: "nat c = Suc (nat (c - 1))" using assms by simp
  have lt: "nat (c - 1) < length (chunk_highlights st)"
    using assms by (simp add: length_chunk_highlights)
  show ?thesis
    unfolding n using steps_before_Suc[OF lt] chunk_highlights_nth[of c st] assms by simp
qed

lemma micro_inv_nextStep: "micro_inv st \<Longrightarrow> micro_inv (fst (nextStep st))"
proof -
  assume inv: "micro_inv st"
  let ?st' = "fst (nextStep st)"
  have ch: "chunk_highlights ?st' = chunk_highlights st"
    by (rule chunk_highlights_cong) (simp_all add: nextStep_static)
  have vp: "valid_pair st" and cms: "currentMicroStep st = rank_formula st"
    using inv by (simp_all add: micro_inv_iff)
  show ?thesis
  proof (cases "blocks st")
    case None
    then show ?thesis using inv by (simp add: nextStep_def)
  next
    case (Some bs)
    show ?thesis
    proof (cases "currentHighlight st < highlightsInCurrentStep st")
      case True
      then have cur: "currentStep ?st' = currentStep st"
        "currentHighlight ?st' = currentHighlight st + 1"
        "currentMicroStep ?st' = currentMicroStep st + 1"
        using nextStep_cursor[of st] Some by simp_all
      show ?thesis
        using vp cms True
        by (simp add: micro_inv_iff valid_pair_def rank_formula_def cur ch nextStep_static
                      highlightsInCurrentStep_def)
    next
      case False
      show ?thesis
      proof (cases "currentStep st < totalSteps st \<and> js_nth bs (currentStep st) \<noteq> None")
        case True
        then have cur: "currentStep ?st' = currentStep st + 1"
          "currentHighlight ?st' = 0"
          "currentMicroStep ?st' = currentMicroStep st + 1"
          using nextStep_cursor[of st] Some False by simp_all
        have eq: "currentHighlight st = highlightsAt (highlightsPerStep st) (currentStep st - 1)"
          using vp False by (simp add: valid_pair_def highlightsInCurrentStep_def)
        have sb: "steps_before (chunk_highlights st) (nat (currentStep st)) =
                  steps_before (chunk_highlights st) (nat (currentStep st - 1)) + 1
                    + highlightsAt (highlightsPerStep st) (currentStep st - 1)"
          using rank_formula_next_chunk[of "currentStep st" st] vp True
          by (simp add: valid_pair_def)
        show ?thesis
          using vp cms True eq sb
          by (simp add: micro_inv_iff valid_pair_def rank_formula_def cur ch nextStep_static
                        highlightsInCurrentStep_def highlightsAt_nonneg)
      next
        case F2: False
        then have cur: "currentStep ?st' = currentStep st"
          "currentHighlight ?st' = currentHighlight st"
          "currentMicroStep ?st' = currentMicroStep st"
          using nextStep_cursor[of st] Some False by auto
        show ?thesis
          using vp cms
          by (simp add: micro_inv_iff valid_pair_def rank_formula_def cur ch nextStep_static
                        highlightsInCurrentStep_def)
      qed
    qed
  qed
qed

lemma micro_inv_prevStep: "micro_inv st \<Longrightarrow> micro_inv (fst (prevStep st))"
proof -
  assume inv: "micro_inv st"
  let ?st' = "fst (prevStep st)"
  have ch: "chunk_highlights ?st' = chunk_highlights st"
    by (rule chunk_highlights_cong) (simp_all add: prevStep_static)
  have vp: "valid_pair st" and cms: "currentMicroStep st = rank_formula st"
    using inv by (simp_all add: micro_inv_iff)
  show ?thesis
  proof (cases "blocks st")
    case None
    then show ?thesis using inv by (simp add: prevStep_def)
  next
    case (Some bs)
    show ?thesis
    proof (cases "currentHighlight st > 0")
      case True
      then have cur: "currentStep ?st' = currentStep st"
        "currentHighlight ?st' = currentHighlight st - 1"
        "currentMicroStep ?st' = currentMicroStep st - 1"
        using prevStep_cursor[of st] Some by simp_all
      show ?thesis
        using vp cms True
        by (simp add: micro_inv_iff valid_pair_def rank_formula_def cur ch prevStep_static
                      highlightsInCurrentStep_def)
    next
      case False
      then have h0: "currentHighlight st = 0" using vp by (simp add: valid_pair_def)
      show ?thesis
      proof (cases "currentStep st > 1 \<and> js_nth bs (currentStep st - 1) \<noteq> None")
        case True
        let ?p = "highlightsAt (highlightsPerStep st) (currentStep st - 2)"
        have cur: "currentStep ?st' = currentStep st - 1"
          "currentHighlight ?st' = ?p"
          "currentMicroStep ?st' = currentMicroStep st - 1"
          using prevStep_cursor[of st] Some False True h0 highlightsAt_nonneg[of "highlightsPerStep st" "currentStep st - 2"]
          by (auto split: if_splits)
        have sb: "steps_before (chunk_highlights st) (nat (currentStep st - 1)) =
                  steps_before (chunk_highlights st) (nat (currentStep st - 1 - 1)) + 1
                    + highlightsAt (highlightsPerStep st) (currentStep st - 1 - 1)"
          using rank_formula_next_chunk[of "currentStep st - 1" st] vp True
          by (simp add: valid_pair_def)
        show ?thesis
          using vp cms True h0 sb
          by (simp add: micro_inv_iff valid_pair_def rank_formula_def cur ch prevStep_static
                        highlightsInCurrentStep_def highlightsAt_nonneg)
      next
        case F2: False
        then have cur: "currentStep ?st' = currentStep st"
          "currentHighlight ?st' = currentHighlight st"
          "currentMicroStep ?st' = currentMicroStep st"
          using prevStep_cursor[of st] Some False by auto
        show ?thesis
          using vp cms
          by (simp add: micro_inv_iff valid_pair_def rank_formula_def cur ch prevStep_static
                        highlightsInCurrentStep_def)
      qed
    qed
  qed
qed

lemma micro_inv_resetSlide: "micro_inv st \<Longrightarrow> micro_inv (resetSlide st)"
proof -
  assume inv: "micro_inv st"
  have ch: "chunk_highlights (resetSlide st) = chunk_highlights st"
    by (rule chunk_highlights_cong)
       (simp_all add: resetSlide_def clearHighlightFocus_def split: option.splits)
  have vp: "valid_pair st" using inv by (simp add: micro_inv_iff)
  show ?thesis
  proof (cases "blocks st")
    case None
    then show ?thesis using inv by (simp add: resetSlide_def)
  next
    case (Some bs)
    then show ?thesis
      using vp
      by (simp add: micro_inv_iff valid_pair_def rank_formula_def ch resetSlide_def
                    clearHighlightFocus_def highlightsInCurrentStep_def highlightsAt_nonneg
                    steps_before_def)
  qed
qed

lemma canon_from_fst: "(c', h') \<in> set (canon_from c hs) \<Longrightarrow> c \<le> c'"
proof (induction hs arbitrary: c)
  case Nil
  then show ?case by simp
next
  case (Cons h hs)
  from Cons.prems have "c' = c \<or> (c', h') \<in> set (canon_from (c + 1) hs)"
    by (auto simp del: upt_Suc)
  then show ?case using Cons.IH[of "c + 1"] by auto
qed

lemma distinct_canon_from: "distinct (canon_from c hs)"
proof (induction hs arbitrary: c)
  case Nil
  then show ?case by simp
next
  case (Cons h hs)
  have row: "distinct (map (\<lambda>j. (c, int j)) [0..<Suc h])"
    by (simp add: distinct_map inj_on_def del: upt_Suc)
  have disj: "set (map (\<lambda>j. (c, int j)) [0..<Suc h]) \<inter> set (canon_from (c + 1) hs) = {}"
    using canon_from_fst[of c _ "c + 1" hs] by (auto simp del: upt_Suc)
  show ?case
    using row disj Cons.IH[of "c + 1"] by (simp del: upt_Suc)
qed

lemma rank_of_nth:
  "rank_of xs x = Some k \<Longrightarrow> 1 \<le> k \<and> nat (k - 1) < length xs \<and> xs ! nat (k - 1) = x"
proof (induction xs arbitrary: k)
  case Nil
  then show ?case by simp
next
  case (Cons y ys)
  show ?case
  proof (cases "x = y")
    case True
    then show ?thesis using Cons.prems by simp
  next
    case False
    then obtain j where j: "rank_of ys x = Some j" "k = j + 1"
      using Cons.prems by auto
    from Cons.IH[OF j(1)] have "1 \<le> j" "nat (j - 1) < length ys" "ys ! nat (j - 1) = x"
      by simp_all
    moreover have "nat (k - 1) = Suc (nat (j - 1))" using j(2) \<open>1 \<le> j\<close> by simp
    ultimately show ?thesis using j(2) by simp
  qed
qed

lemma steps_before_mono_strict:
  "n < m \<Longrightarrow> m \<le> length hs \<Longrightarrow> steps_before hs n < steps_before hs m"
proof (induction m)
  case 0
  then show ?case by simp
next
  case (Suc m)
  have step: "steps_before hs (Suc m) = steps_before hs m + 1 + int (hs ! m)"
    using Suc.prems by (simp add: steps_before_Suc)
  show ?case
  proof (cases "n = m")
    case True
    then show ?thesis using step by simp
  next
    case False
    then have "steps_before hs n < steps_before hs m" using Suc by simp
    then show ?thesis using step by simp
  qed
qed

lemma micro_total_eq: "micro_total st = steps_before (chunk_highlights st) (nat (totalSteps st))"
  by (simp add: micro_total_def canonical_def length_canon_from length_chunk_highlights)

lemma micro_total_sum: "micro_total st = (\<Sum>h\<leftarrow>chunk_highlights st. 1 + int h)"
  by (simp add: micro_total_eq steps_before_def length_chunk_highlights[symmetric])

lemma rank_formula_chunk_end:
  assumes "valid_pair st"
  shows "steps_before (chunk_highlights st) (nat (currentStep st)) =
         steps_before (chunk_highlights st) (nat (currentStep st - 1)) + 1 + highlightsInCurrentStep st"
proof -
  have c: "1 \<le> currentStep st" "currentStep st \<le> totalSteps st"
    using assms by (simp_all add: valid_pair_def)
  have n: "nat (currentStep st) = Suc (nat (currentStep st - 1))" using c by simp
  have lt: "nat (currentStep st - 1) < length (chunk_highlights st)"
    using c by (simp add: length_chunk_highlights)
  show ?thesis
    unfolding n using steps_before_Suc[OF lt] chunk_highlights_nth[OF c]
    by (simp add: highlightsInCurrentStep_def)
qed

lemma micro_inv_le_total:
  assumes "micro_inv st"
  shows "currentMicroStep st \<le> micro_total st"
    and "currentMicroStep st = micro_total st \<longleftrightarrow>
         currentStep st = totalSteps st \<and> currentHighlight st = highlightsInCurrentStep st"
proof -
  have vp: "valid_pair st" and cms: "currentMicroStep st = rank_formula st"
    using assms by (simp_all add: micro_inv_iff)
  have c: "1 \<le> currentStep st" "currentStep st \<le> totalSteps st"
    "currentHighlight st \<le> highlightsInCurrentStep st"
    using vp by (simp_all add: valid_pair_def)
  let ?ch = "chunk_highlights st"
  have e: "steps_before ?ch (nat (currentStep st)) =
           steps_before ?ch (nat (currentStep st - 1)) + 1 + highlightsInCurrentStep st"
    by (rule rank_formula_chunk_end[OF vp])
  have le: "steps_before ?ch (nat (currentStep st)) \<le> steps_before ?ch (nat (totalSteps st))"
    and lt: "currentStep st < totalSteps st \<Longrightarrow>
         steps_before ?ch (nat (currentStep st)) < steps_before ?ch (nat (totalSteps st))"
  proof -
    show "currentStep st < totalSteps st \<Longrightarrow>
         steps_before ?ch (nat (currentStep st)) < steps_before ?ch (nat (totalSteps st))"
      using c by (intro steps_before_mono_strict) (simp_all add: length_chunk_highlights)
    then show "steps_before ?ch (nat (currentStep st)) \<le> steps_before ?ch (nat (totalSteps st))"
      using c by (cases "currentStep st = totalSteps st") auto
  qed
  have eqT: "currentStep st = totalSteps st \<Longrightarrow>
         steps_before ?ch (nat (currentStep st)) = steps_before ?ch (nat (totalSteps st))"
    by simp
  have cms': "currentMicroStep st = steps_before ?ch (nat (currentStep st - 1)) + currentHighlight st + 1"
    using cms by (simp add: rank_formula_def)
  show "currentMicroStep st \<le> micro_total st"
    unfolding micro_total_eq using cms' e le c(3) by linarith
  show "currentMicroStep st = micro_total st \<longleftrightarrow>
         currentStep st = totalSteps st \<and> currentHighlight st = highlightsInCurrentStep st"
  proof (cases "currentStep st = totalSteps st")
    case True
    show ?thesis unfolding micro_total_eq using cms' e eqT[OF True] True by linarith
  next
    case False
    then have "currentStep st < totalSteps st" using c(2) by simp
    from lt[OF this] show ?thesis unfolding micro_total_eq using cms' e c(3) False by linarith
  qed
qed

lemma nextStep_initialised: "initialised st \<Longrightarrow> initialised (fst (nextStep st))"
  by (auto simp: initialised_def nextStep_def Let_def activateHighlight_def clearHighlightFocus_def
           split: option.splits)

lemma nextStep_canonical: "canonical (fst (nextStep st)) = canonical st"
proof -
  have "chunk_highlights (fst (nextStep st)) = chunk_highlights st"
    by (rule chunk_highlights_cong) (simp_all add: nextStep_static)
  then show ?thesis by (simp add: canonical_def)
qed

lemma nextStep_advances:
  assumes "initialised st" "micro_inv st" "currentMicroStep st < micro_total st"
  shows "currentMicroStep (fst (nextStep st)) = currentMicroStep st + 1"
proof -
  obtain bs where bs: "blocks st = Some bs" "totalSteps st = int (length bs)"
    using assms(1) by (auto simp: initialised_def split: option.splits)
  have vp: "valid_pair st" using assms(2) by (simp add: micro_inv_iff)
  have nt: "\<not> (currentStep st = totalSteps st \<and> currentHighlight st = highlightsInCurrentStep st)"
    using micro_inv_le_total(2)[OF assms(2)] assms(3) by simp
  show ?thesis
  proof (cases "currentHighlight st < highlightsInCurrentStep st")
    case True
    then show ?thesis using nextStep_cursor[of st] bs by simp
  next
    case False
    then have "currentStep st < totalSteps st" using nt vp by (auto simp: valid_pair_def)
    moreover have "js_nth bs (currentStep st) \<noteq> None"
      using calculation vp bs by (simp add: js_nth_def valid_pair_def)
    ultimately show ?thesis using nextStep_cursor[of st] bs False by simp
  qed
qed

lemma upt_Suc_Suc: "[0..<Suc (Suc n)] = 0 # map Suc [0..<Suc n]"
  by (simp only: upt_conv_Cons[of 0 "Suc (Suc n)"] map_Suc_upt)

lemma advance_trace_props:
  assumes "initialised st" "micro_inv st" "currentMicroStep st + int n \<le> micro_total st"
  shows "map currentMicroStep (advance_trace n st) = map (\<lambda>k. currentMicroStep st + int k) [0..<Suc n]
     \<and> (\<forall>s \<in> set (advance_trace n st). micro_inv s \<and> initialised s \<and> canonical s = canonical st)"
  using assms
proof (induction n arbitrary: st)
  case 0
  then show ?case by simp
next
  case (Suc n)
  let ?st' = "fst (nextStep st)"
  have lt: "currentMicroStep st < micro_total st" using Suc.prems(3) by simp
  have adv: "currentMicroStep ?st' = currentMicroStep st + 1"
    by (rule nextStep_advances[OF Suc.prems(1,2) lt])
  have tot: "micro_total ?st' = micro_total st"
    by (simp add: micro_total_def nextStep_canonical)
  have le': "currentMicroStep ?st' + int n \<le> micro_total ?st'"
    unfolding adv tot using Suc.prems(3) by simp
  note ih = Suc.IH[OF nextStep_initialised[OF Suc.prems(1)] micro_inv_nextStep[OF Suc.prems(2)] le']
  have m: "map currentMicroStep (advance_trace (Suc n) st) =
           map (\<lambda>k. currentMicroStep st + int k) [0..<Suc (Suc n)]"
    unfolding upt_Suc_Suc advance_trace.simps list.map map_map comp_def
    using ih adv by simp
  have a: "\<forall>s \<in> set (advance_trace (Suc n) st). micro_inv s \<and> initialised s \<and> canonical s = canonical st"
    using ih Suc.prems(1,2) by (simp add: nextStep_canonical)
  show ?case using m a by blast
qed

lemma length_reset_blocks: "length (reset_blocks i bs) = length bs"
  by (induction bs arbitrary: i) auto

lemma length_advance_trace: "length (advance_trace n st) = Suc n"
  by (induction n arbitrary: st) auto

lemma last_advance_trace_nth: "last (advance_trace n st) = advance_trace n st ! n"
proof -
  have "advance_trace n st \<noteq> []" by (cases n) simp_all
  then show ?thesis by (simp add: last_conv_nth length_advance_trace)
qed

lemma nextStep_terminal:
  assumes "currentStep st = totalSteps st" "currentHighlight st = highlightsInCurrentStep st"
  shows "nextStep st = (st, Inr False)"
  using assms by (simp add: nextStep_def split: option.splits)

lemma resetSlide_props:
  assumes "initialised st" "1 \<le> totalSteps st"
  shows "initialised (resetSlide st)" "micro_inv (resetSlide st)"
        "canonical (resetSlide st) = canonical st" "currentMicroStep (resetSlide st) = 1"
proof -
  obtain bs where bs: "blocks st = Some bs" "totalSteps st = int (length bs)"
    using assms(1) by (auto simp: initialised_def split: option.splits)
  show "initialised (resetSlide st)"
    using bs by (simp add: initialised_def resetSlide_def clearHighlightFocus_def length_reset_blocks)
  have ch: "chunk_highlights (resetSlide st) = chunk_highlights st"
    by (rule chunk_highlights_cong)
       (simp_all add: resetSlide_def clearHighlightFocus_def split: option.splits)
  then show "canonical (resetSlide st) = canonical st" by (simp add: canonical_def)
  show "currentMicroStep (resetSlide st) = 1"
    using bs by (simp add: resetSlide_def clearHighlightFocus_def)
  show "micro_inv (resetSlide st)"
    using bs assms(2)
    by (simp add: micro_inv_iff valid_pair_def rank_formula_def ch resetSlide_def
                  clearHighlightFocus_def highlightsInCurrentStep_def highlightsAt_nonneg
                  steps_before_def)
qed

lemma micro_total_pos: "1 \<le> totalSteps st \<Longrightarrow> 1 \<le> micro_total st"
proof -
  assume "1 \<le> totalSteps st"
  then have "steps_before (chunk_highlights st) 0 < steps_before (chunk_highlights st) (nat (totalSteps st))"
    by (intro steps_before_mono_strict) (simp_all add: length_chunk_highlights)
  then show ?thesis by (simp add: micro_total_eq steps_before_def)
qed

lemma map_int_upt_shift: "map (\<lambda>k. 1 + int k) [0..<n] = map int [1..<Suc n]"
proof -
  have "map int [1..<Suc n] = map int (map Suc [0..<n])"
    by (simp only: map_Suc_upt One_nat_def)
  then show ?thesis by (simp add: comp_def)
qed

lemma prevStep_initialised: "initialised st \<Longrightarrow> initialised (fst (prevStep st))"
  by (auto simp: initialised_def prevStep_def Let_def activateHighlight_def clearHighlightFocus_def
           split: option.splits prod.splits sum.splits)

lemma initSlide_cursor_ok:
  "cursor_ok (initSlide bs (Some (newSlideState hps)))" "cursor_ok (initSlide bs None)"
  by (simp_all add: cursor_ok_def initialised_def initSlide_def newSlideState_def Let_def
                    length_reset_blocks highlightsInCurrentStep_def highlightsAt_nonneg)

lemma nextStep_cursor_ok: "cursor_ok st \<Longrightarrow> cursor_ok (fst (nextStep st))"
proof -
  assume ok: "cursor_ok st"
  let ?st' = "fst (nextStep st)"
  obtain bs where bs: "blocks st = Some bs"
    using ok by (auto simp: cursor_ok_def initialised_def split: option.splits)
  have i: "initialised ?st'" using ok by (simp add: cursor_ok_def nextStep_initialised)
  have c: "(currentStep ?st', currentHighlight ?st') =
        (if currentHighlight st < highlightsInCurrentStep st
         then (currentStep st, currentHighlight st + 1)
         else if currentStep st < totalSteps st \<and> js_nth bs (currentStep st) \<noteq> None
         then (currentStep st + 1, 0)
         else (currentStep st, currentHighlight st))"
    using nextStep_cursor[of st] bs by (auto split: if_splits)
  show ?thesis
    using ok i c
    by (auto simp: cursor_ok_def highlightsInCurrentStep_def nextStep_static highlightsAt_nonneg
             split: if_splits)
qed

lemma prevStep_cursor_ok: "cursor_ok st \<Longrightarrow> cursor_ok (fst (prevStep st))"
proof -
  assume ok: "cursor_ok st"
  let ?st' = "fst (prevStep st)"
  obtain bs where bs: "blocks st = Some bs"
    using ok by (auto simp: cursor_ok_def initialised_def split: option.splits)
  have i: "initialised ?st'" using ok by (simp add: cursor_ok_def prevStep_initialised)
  have c: "(currentStep ?st', currentHighlight ?st') =
        (if currentHighlight st > 0
         then (currentStep st, currentHighlight st - 1)
         else if currentStep st > 1 \<and> js_nth bs (currentStep st - 1) \<noteq> None
         then (currentStep st - 1,
              (if highlightsAt (highlightsPerStep st) (currentStep st - 2) > 0
               then highlightsAt (highlightsPerStep st) (currentStep st - 2)
               else currentHighlight st))
         else (currentStep st, currentHighlight st))"
    using prevStep_cursor[of st] bs by (auto split: if_splits)
  show ?thesis
    using ok i c
    by (auto simp: cursor_ok_def highlightsInCurrentStep_def prevStep_static highlightsAt_nonneg
             split: if_splits)
qed

lemma resetSlide_cursor_ok: "cursor_ok st \<Longrightarrow> cursor_ok (resetSlide st)"
  by (auto simp: cursor_ok_def initialised_def resetSlide_def clearHighlightFocus_def
                 length_reset_blocks highlightsInCurrentStep_def highlightsAt_nonneg
           split: option.splits)

lemma showAllSteps_cursor_ok: "cursor_ok st \<Longrightarrow> cursor_ok (showAllSteps st)"
  by (auto simp: cursor_ok_def initialised_def showAllSteps_def clearHighlightFocus_def
                 highlightsInCurrentStep_def highlightsAt_nonneg
           split: option.splits)

lemma reachable_cursor_ok: "reachable st \<Longrightarrow> cursor_ok st"
  by (induction rule: reachable.induct)
     (simp_all add: initSlide_cursor_ok nextStep_cursor_ok prevStep_cursor_ok
                    resetSlide_cursor_ok showAllSteps_cursor_ok)

lemma advance_then_retreat:
  assumes ok: "cursor_ok st" and nx: "hasNextStep st"
  shows "cursor (fst (prevStep (fst (nextStep st)))) = cursor st"
    and "currentMicroStep (fst (prevStep (fst (nextStep st)))) = currentMicroStep st"
    and "currentHighlight st = highlightsInCurrentStep st \<Longrightarrow>
         cursor (fst (nextStep st)) = (currentStep st + 1, 0)"
proof -
  let ?s1 = "fst (nextStep st)"
  let ?s2 = "fst (prevStep ?s1)"
  obtain bs where bs: "blocks st = Some bs" "totalSteps st = int (length bs)"
    using ok by (auto simp: cursor_ok_def initialised_def split: option.splits)
  have i1: "initialised ?s1" using ok by (simp add: cursor_ok_def nextStep_initialised)
  then obtain bs1 where bs1: "blocks ?s1 = Some bs1" "totalSteps ?s1 = int (length bs1)"
    by (auto simp: initialised_def split: option.splits)
  have len1: "length bs1 = length bs" using bs1(2) bs(2) by (simp add: nextStep_static)
  have h: "0 \<le> currentHighlight st" "currentHighlight st \<le> highlightsInCurrentStep st"
    "0 \<le> currentStep st" "currentStep st = 0 \<longrightarrow> totalSteps st = 0"
    using ok by (simp_all add: cursor_ok_def)
  have goal: "cursor ?s2 = cursor st \<and> currentMicroStep ?s2 = currentMicroStep st \<and>
    (currentHighlight st = highlightsInCurrentStep st \<longrightarrow> cursor ?s1 = (currentStep st + 1, 0))"
  proof (cases "currentHighlight st < highlightsInCurrentStep st")
    case True
    then have c1: "currentStep ?s1 = currentStep st" "currentHighlight ?s1 = currentHighlight st + 1"
      "currentMicroStep ?s1 = currentMicroStep st + 1"
      using nextStep_cursor[of st] bs by simp_all
    have "currentHighlight ?s1 > 0" using c1 h by simp
    then show ?thesis
      using prevStep_cursor[of ?s1] bs1 c1 True by (simp add: cursor_def)
  next
    case False
    then have eq: "currentHighlight st = highlightsInCurrentStep st" using h by simp
    have lt: "currentStep st < totalSteps st" using nx False by (simp add: hasNextStep_def)
    then have ge1: "1 \<le> currentStep st" using h by auto
    have nb: "js_nth bs (currentStep st) \<noteq> None" using lt h bs by (simp add: js_nth_def)
    have c1: "currentStep ?s1 = currentStep st + 1" "currentHighlight ?s1 = 0"
      "currentMicroStep ?s1 = currentMicroStep st + 1"
      using nextStep_cursor[of st] bs False lt nb by simp_all
    have nb1: "js_nth bs1 (currentStep ?s1 - 1) \<noteq> None"
      using c1 lt h bs len1 by (simp add: js_nth_def)
    have "0 \<le> highlightsInCurrentStep st"
      by (simp add: highlightsInCurrentStep_def highlightsAt_nonneg)
    then show ?thesis
      using prevStep_cursor[of ?s1] bs1 c1 nb1 ge1 eq
      by (auto simp: cursor_def nextStep_static highlightsInCurrentStep_def)
  qed
  show "cursor ?s2 = cursor st" using goal by simp
  show "currentMicroStep ?s2 = currentMicroStep st" using goal by simp
  show "currentHighlight st = highlightsInCurrentStep st \<Longrightarrow>
         cursor ?s1 = (currentStep st + 1, 0)" using goal by simp
qed

lemma showAllSteps_micro_inv:
  assumes inv: "micro_inv st" and i: "initialised st"
    and t: "totalMicroSteps st = int (length (canonical st))"
  shows "micro_inv (showAllSteps st) \<longleftrightarrow>
         highlightsAt (highlightsPerStep st) (totalSteps st - 1) = 0"
proof -
  obtain bs where bs: "blocks st = Some bs"
    using i by (auto simp: initialised_def split: option.splits)
  have vp: "valid_pair st" using inv by (simp add: micro_inv_iff)
  then have T: "1 \<le> totalSteps st" by (simp add: valid_pair_def)
  let ?s = "showAllSteps st"
  have f: "currentStep ?s = totalSteps st" "currentHighlight ?s = 0"
    "currentMicroStep ?s = totalMicroSteps st" "totalSteps ?s = totalSteps st"
    "highlightsPerStep ?s = highlightsPerStep st"
    using bs by (simp_all add: showAllSteps_def clearHighlightFocus_def)
  have ch: "chunk_highlights ?s = chunk_highlights st"
    by (rule chunk_highlights_cong) (simp_all add: f)
  have sb: "steps_before (chunk_highlights st) (nat (totalSteps st)) =
            steps_before (chunk_highlights st) (nat (totalSteps st - 1)) + 1
              + highlightsAt (highlightsPerStep st) (totalSteps st - 1)"
  proof -
    have n: "nat (totalSteps st) = Suc (nat (totalSteps st - 1))" using T by simp
    have lt: "nat (totalSteps st - 1) < length (chunk_highlights st)"
      using T by (simp add: length_chunk_highlights)
    show ?thesis
      unfolding n using steps_before_Suc[OF lt] chunk_highlights_nth[of "totalSteps st" st] T
      by simp
  qed
  have tt: "totalMicroSteps st = steps_before (chunk_highlights st) (nat (totalSteps st))"
    using t micro_total_eq[of st] by (simp add: micro_total_def)
  show ?thesis
    using T sb tt
    by (auto simp: micro_inv_iff valid_pair_def rank_formula_def f ch highlightsInCurrentStep_def
                   highlightsAt_nonneg)
qed

lemma slide_1_canonical: "canonical slide_1 = [(1, 0), (1, 1)]"
  by code_simp

lemma slide_2_0_canonical: "canonical slide_2_0 = [(1, 0), (1, 1), (1, 2), (2, 0)]"
  by code_simp

lemma nextStep_result:
  assumes i: "initialised st" and vp: "valid_pair st"
  shows "currentHighlight st < highlightsInCurrentStep st \<Longrightarrow> snd (nextStep st) = Inr True"
    and "currentHighlight st = highlightsInCurrentStep st \<Longrightarrow> currentStep st < totalSteps st \<Longrightarrow>
         snd (nextStep st) = Inr (hasNextStep (fst (nextStep st)))"
proof -
  obtain bs where bs: "blocks st = Some bs" "totalSteps st = int (length bs)"
    using i by (auto simp: initialised_def split: option.splits)
  have c: "1 \<le> currentStep st" "currentStep st \<le> totalSteps st"
    using vp by (simp_all add: valid_pair_def)
  have cb: "js_nth bs (currentStep st - 1) = Some (bs ! nat (currentStep st - 1))"
    using c bs by (simp add: js_nth_def)
  show "currentHighlight st < highlightsInCurrentStep st \<Longrightarrow> snd (nextStep st) = Inr True"
    using bs cb by (simp add: nextStep_def Let_def split: option.splits)
  show "currentHighlight st = highlightsInCurrentStep st \<Longrightarrow> currentStep st < totalSteps st \<Longrightarrow>
         snd (nextStep st) = Inr (hasNextStep (fst (nextStep st)))"
  proof -
    assume a: "currentHighlight st = highlightsInCurrentStep st" "currentStep st < totalSteps st"
    have nb: "js_nth bs (currentStep st) = Some (bs ! nat (currentStep st))"
      using a c bs by (simp add: js_nth_def)
    show ?thesis
      using bs nb a by (simp add: nextStep_def Let_def)
  qed
qed

subsection \<open>The claims about the state machine\<close>

text \<open>
  Claim C3, as amended. If \<open>currentMicroStep\<close> is the 1-based rank of the pair
  (\<open>currentStep\<close>, \<open>currentHighlight\<close>) in the canonical ordering, then it still is after
  \<open>nextStep\<close>, after \<open>prevStep\<close> and after \<open>resetSlide\<close>. \<open>showAllSteps\<close> moves the pair to
  (\<open>totalSteps\<close>, 0) and the counter to \<open>totalMicroSteps\<close>: on an initialised slide whose
  \<open>totalMicroSteps\<close> is the length of the ordering, the invariant holds afterwards exactly
  when the last chunk has no highlights.
\<close>

theorem micro_step_invariant_preserved:
  assumes "micro_inv st"
  shows "micro_inv (fst (nextStep st)) \<and> micro_inv (fst (prevStep st)) \<and>
         micro_inv (resetSlide st) \<and>
         (initialised st \<and> totalMicroSteps st = int (length (canonical st)) \<longrightarrow>
            (micro_inv (showAllSteps st) \<longleftrightarrow>
               highlightsAt (highlightsPerStep st) (totalSteps st - 1) = 0))"
  using assms micro_inv_nextStep micro_inv_prevStep micro_inv_resetSlide showAllSteps_micro_inv
  by blast

text \<open>The hypotheses of C3 (amended) hold on the slide with chunks of 2 and 0 highlights.\<close>

theorem micro_step_invariant_preserved_witness:
  "micro_inv slide_2_0 \<and> micro_inv (fst (nextStep slide_2_0)) \<and>
   micro_inv (fst (prevStep slide_2_0)) \<and> micro_inv (resetSlide slide_2_0) \<and>
   micro_inv (showAllSteps slide_2_0)"
proof -
  have h: "micro_inv slide_2_0" by code_simp
  have i: "initialised slide_2_0 \<and> totalMicroSteps slide_2_0 = int (length (canonical slide_2_0))"
    by code_simp
  have z: "highlightsAt (highlightsPerStep slide_2_0) (totalSteps slide_2_0 - 1) = 0"
    by code_simp
  show ?thesis using micro_step_invariant_preserved[OF h] h i z by blast
qed

text \<open>
  Claim C3 as stated fails for \<open>showAllSteps\<close>: on the slide with one chunk holding one
  highlight the invariant holds after \<open>initSlide\<close>, and \<open>showAllSteps\<close> leaves the pair (1, 0),
  whose rank is 1, with \<open>currentMicroStep = 2\<close>.
\<close>

theorem showAllSteps_breaks_invariant:
  "micro_inv slide_1 \<and> \<not> micro_inv (showAllSteps slide_1)"
  by code_simp

text \<open>
  Claim C4. For an initialised slide with at least one chunk, \<open>resetSlide\<close> followed by
  \<open>n - 1\<close> calls of \<open>nextStep\<close>, where \<open>n = \<Sum>(1 + h\<^sub>i)\<close>, passes through the pairs of the
  canonical ordering in order (so each pair once and none skipped), with \<open>currentMicroStep\<close>
  running through \<open>1, 2, \<dots>, n\<close>; one more \<open>nextStep\<close> returns false and leaves the state as
  it is.
\<close>

theorem micro_step_completeness:
  assumes "initialised st" and "1 \<le> totalSteps st"
  shows "let n = length (canonical st);
             tr = advance_trace (n - 1) (resetSlide st)
         in int n = (\<Sum>h\<leftarrow>chunk_highlights st. 1 + int h) \<and>
            map cursor tr = canonical st \<and>
            distinct (canonical st) \<and>
            map currentMicroStep tr = map int [1..<Suc n] \<and>
            nextStep (last tr) = (last tr, Inr False)"
proof -
  define n where "n = length (canonical st)"
  define s0 where "s0 = resetSlide st"
  define tr where "tr = advance_trace (n - 1) s0"
  note r = resetSlide_props[OF assms, folded s0_def]
  have tot: "micro_total s0 = int n" by (simp add: micro_total_def r(3) n_def)
  have npos: "1 \<le> n" using micro_total_pos[OF assms(2)] by (simp add: micro_total_def n_def)
  have le: "currentMicroStep s0 + int (n - 1) \<le> micro_total s0"
    using npos by (simp add: r(4) tot)
  note p = advance_trace_props[OF r(1) r(2) le, folded tr_def]
  have len: "length tr = n" using npos by (simp add: tr_def length_advance_trace)
  have cms: "map currentMicroStep tr = map int [1..<Suc n]"
    using p npos by (simp add: r(4) map_int_upt_shift del: upt_Suc)
  have all: "\<And>i. i < n \<Longrightarrow> micro_inv (tr ! i) \<and> canonical (tr ! i) = canonical st
                 \<and> currentMicroStep (tr ! i) = 1 + int i"
  proof -
    fix i assume i: "i < n"
    then have mem: "tr ! i \<in> set tr" using len by simp
    have "map currentMicroStep tr ! i = map int [1..<Suc n] ! i" using cms by simp
    then have "currentMicroStep (tr ! i) = 1 + int i"
      using i len by (simp del: upt_Suc)
    then show "micro_inv (tr ! i) \<and> canonical (tr ! i) = canonical st
                 \<and> currentMicroStep (tr ! i) = 1 + int i"
      using p mem r(3) by simp
  qed
  have cur: "map cursor tr = canonical st"
  proof (rule nth_equalityI)
    show "length (map cursor tr) = length (canonical st)" by (simp add: len n_def)
  next
    fix i assume "i < length (map cursor tr)"
    then have i: "i < n" by (simp add: len)
    from all[OF i] have a: "micro_inv (tr ! i)" and b: "canonical (tr ! i) = canonical st"
      and c: "currentMicroStep (tr ! i) = 1 + int i" by simp_all
    have "rank_of (canonical (tr ! i)) (cursor (tr ! i)) = Some (currentMicroStep (tr ! i))"
      using a by (simp add: micro_inv_def cursor_def)
    then have "rank_of (canonical st) (cursor (tr ! i)) = Some (1 + int i)"
      unfolding b c .
    from rank_of_nth[OF this] have "canonical st ! i = cursor (tr ! i)" by simp
    then show "map cursor tr ! i = canonical st ! i" using i len by simp
  qed
  have lst: "last tr = tr ! (n - 1)"
    by (simp add: tr_def last_advance_trace_nth)
  have "micro_inv (last tr)" "currentMicroStep (last tr) = micro_total (last tr)"
    using all[of "n - 1"] npos by (simp_all add: lst micro_total_def n_def)
  then have fin: "nextStep (last tr) = (last tr, Inr False)"
    using micro_inv_le_total(2)[of "last tr"] by (simp add: nextStep_terminal)
  have sum: "int n = (\<Sum>h\<leftarrow>chunk_highlights st. 1 + int h)"
    using micro_total_sum[of st] by (simp add: micro_total_def n_def)
  have d: "distinct (canonical st)" by (simp add: canonical_def distinct_canon_from)
  show ?thesis
    unfolding Let_def
    using sum cur d cms fin unfolding tr_def s0_def n_def by blast
qed

text \<open>The run of C4 on the slide with chunks of 2 and 0 highlights.\<close>

theorem micro_step_completeness_witness:
  "initialised slide_2_0 \<and> 1 \<le> totalSteps slide_2_0 \<and>
   map cursor (advance_trace 3 (resetSlide slide_2_0)) = [(1, 0), (1, 1), (1, 2), (2, 0)] \<and>
   map currentMicroStep (advance_trace 3 (resetSlide slide_2_0)) = [1, 2, 3, 4] \<and>
   nextStep (last (advance_trace 3 (resetSlide slide_2_0))) =
     (last (advance_trace 3 (resetSlide slide_2_0)), Inr False)"
proof -
  have h: "initialised slide_2_0" "1 \<le> totalSteps slide_2_0" by code_simp+
  have n: "length (canonical slide_2_0) - 1 = 3" "[1..<Suc (length (canonical slide_2_0))] = [1, 2, 3, 4]"
    by (simp_all add: slide_2_0_canonical upt_conv_Cons)
  show ?thesis
    using micro_step_completeness[OF h] h
    unfolding Let_def n slide_2_0_canonical by (simp add: numeral_3_eq_3)
qed

text \<open>
  Claim C5. From a reachable state that has a next step, \<open>nextStep\<close> followed by \<open>prevStep\<close>
  gives back the pair (and the micro-step counter) it started from. When the advance
  crossed a chunk boundary, the retreat returns into the chunk left with
  \<open>currentHighlight\<close> equal to that chunk's highlight count.
\<close>

theorem retreat_inverts_advance:
  assumes "reachable st" and "hasNextStep st"
  shows "cursor (fst (prevStep (fst (nextStep st)))) = cursor st \<and>
         currentMicroStep (fst (prevStep (fst (nextStep st)))) = currentMicroStep st \<and>
         (currentHighlight st = highlightsInCurrentStep st \<longrightarrow>
            cursor (fst (nextStep st)) = (currentStep st + 1, 0) \<and>
            cursor (fst (prevStep (fst (nextStep st)))) = (currentStep st, highlightsInCurrentStep st))"
  using advance_then_retreat[OF reachable_cursor_ok[OF assms(1)] assms(2)]
  by (auto simp: cursor_def)

text \<open>C5 at the state (1, 2) of the slide with chunks of 2 and 0 highlights.\<close>

theorem retreat_inverts_advance_witness:
  "reachable (fst (nextStep (fst (nextStep slide_2_0)))) \<and>
   hasNextStep (fst (nextStep (fst (nextStep slide_2_0)))) \<and>
   cursor (fst (nextStep (fst (nextStep slide_2_0)))) = (1, 2) \<and>
   cursor (fst (nextStep (fst (nextStep (fst (nextStep slide_2_0)))))) = (2, 0) \<and>
   cursor (fst (prevStep (fst (nextStep (fst (nextStep (fst (nextStep slide_2_0)))))))) = (1, 2)"
proof -
  let ?s2 = "fst (nextStep (fst (nextStep slide_2_0)))"
  have r: "reachable ?s2"
    unfolding slide_2_0_def by (intro reachable.advance reachable.built)
  have h: "hasNextStep ?s2" by code_simp
  have c: "cursor ?s2 = (1, 2)" "currentHighlight ?s2 = highlightsInCurrentStep ?s2"
    "highlightsInCurrentStep ?s2 = 2" "currentStep ?s2 = 1" by code_simp+
  show ?thesis
    using retreat_inverts_advance[OF r h] r h c by simp
qed

text \<open>
  Claim C9. On an initialised state whose pair is valid: revealing a highlight returns
  true, also when that highlight is the last micro-step (so \<open>hasNextStep\<close> is false
  afterwards); revealing a chunk returns \<open>hasNextStep\<close> of the new state; so advancing
  into a last chunk without highlights returns false although the state has changed.
\<close>

theorem nextStep_result_not_uniform:
  assumes "initialised st" and "valid_pair st"
  shows "(currentHighlight st < highlightsInCurrentStep st \<longrightarrow> snd (nextStep st) = Inr True) \<and>
         (currentHighlight st + 1 = highlightsInCurrentStep st \<and> currentStep st = totalSteps st \<longrightarrow>
            snd (nextStep st) = Inr True \<and> \<not> hasNextStep (fst (nextStep st))) \<and>
         (currentHighlight st = highlightsInCurrentStep st \<and> currentStep st < totalSteps st \<longrightarrow>
            snd (nextStep st) = Inr (hasNextStep (fst (nextStep st))) \<and>
            cursor (fst (nextStep st)) = (currentStep st + 1, 0)) \<and>
         (currentHighlight st = highlightsInCurrentStep st \<and> currentStep st + 1 = totalSteps st \<and>
          highlightsAt (highlightsPerStep st) (currentStep st) = 0 \<longrightarrow>
            snd (nextStep st) = Inr False \<and> fst (nextStep st) \<noteq> st)"
proof -
  obtain bs where bs: "blocks st = Some bs" "totalSteps st = int (length bs)"
    using assms(1) by (auto simp: initialised_def split: option.splits)
  have c: "1 \<le> currentStep st" "currentStep st \<le> totalSteps st"
    using assms(2) by (simp_all add: valid_pair_def)
  let ?s1 = "fst (nextStep st)"
  have A: "currentHighlight st < highlightsInCurrentStep st \<longrightarrow> snd (nextStep st) = Inr True"
    using nextStep_result(1)[OF assms] by simp
  have B: "currentHighlight st + 1 = highlightsInCurrentStep st \<and> currentStep st = totalSteps st \<longrightarrow>
            snd (nextStep st) = Inr True \<and> \<not> hasNextStep ?s1"
  proof
    assume a: "currentHighlight st + 1 = highlightsInCurrentStep st \<and> currentStep st = totalSteps st"
    then have lt: "currentHighlight st < highlightsInCurrentStep st" by simp
    have cur: "currentStep ?s1 = currentStep st" "currentHighlight ?s1 = currentHighlight st + 1"
      using nextStep_cursor[of st] bs lt by simp_all
    show "snd (nextStep st) = Inr True \<and> \<not> hasNextStep ?s1"
      using A lt a cur by (simp add: hasNextStep_def highlightsInCurrentStep_def nextStep_static)
  qed
  have C: "currentHighlight st = highlightsInCurrentStep st \<and> currentStep st < totalSteps st \<longrightarrow>
            snd (nextStep st) = Inr (hasNextStep ?s1) \<and> cursor ?s1 = (currentStep st + 1, 0)"
  proof
    assume a: "currentHighlight st = highlightsInCurrentStep st \<and> currentStep st < totalSteps st"
    have nb: "js_nth bs (currentStep st) \<noteq> None" using a c bs by (simp add: js_nth_def)
    have cur: "cursor ?s1 = (currentStep st + 1, 0)"
      using nextStep_cursor[of st] bs a nb by (simp add: cursor_def)
    show "snd (nextStep st) = Inr (hasNextStep ?s1) \<and> cursor ?s1 = (currentStep st + 1, 0)"
      using nextStep_result(2)[OF assms] a cur by simp
  qed
  have D: "currentHighlight st = highlightsInCurrentStep st \<and> currentStep st + 1 = totalSteps st \<and>
          highlightsAt (highlightsPerStep st) (currentStep st) = 0 \<longrightarrow>
            snd (nextStep st) = Inr False \<and> ?s1 \<noteq> st"
  proof
    assume a: "currentHighlight st = highlightsInCurrentStep st \<and> currentStep st + 1 = totalSteps st \<and>
          highlightsAt (highlightsPerStep st) (currentStep st) = 0"
    then have lt: "currentStep st < totalSteps st" by simp
    from C a lt have r: "snd (nextStep st) = Inr (hasNextStep ?s1)"
      and cur: "cursor ?s1 = (currentStep st + 1, 0)" by simp_all
    have t: "totalSteps st - 1 = currentStep st" using a by simp
    have "\<not> hasNextStep ?s1"
      using cur a by (simp add: hasNextStep_def cursor_def highlightsInCurrentStep_def nextStep_static t)
    moreover have "?s1 \<noteq> st"
    proof
      assume "?s1 = st"
      then have "cursor ?s1 = cursor st" by simp
      then show False using cur by (simp add: cursor_def)
    qed
    ultimately show "snd (nextStep st) = Inr False \<and> ?s1 \<noteq> st" using r by simp
  qed
  show ?thesis using A B C D by blast
qed

text \<open>C9 on the two concrete slides: a true result at the last micro-step, a false result with a changed state.\<close>

theorem nextStep_result_not_uniform_witness:
  "initialised slide_2_0 \<and> valid_pair slide_2_0 \<and>
   snd (nextStep slide_2_0) = Inr True \<and>
   snd (nextStep (fst (nextStep (fst (nextStep slide_2_0))))) = Inr False \<and>
   fst (nextStep (fst (nextStep (fst (nextStep slide_2_0))))) \<noteq> fst (nextStep (fst (nextStep slide_2_0))) \<and>
   snd (nextStep slide_1) = Inr True \<and> \<not> hasNextStep (fst (nextStep slide_1))"
proof -
  let ?s2 = "fst (nextStep (fst (nextStep slide_2_0)))"
  have h0: "initialised slide_2_0" "valid_pair slide_2_0"
    "currentHighlight slide_2_0 < highlightsInCurrentStep slide_2_0" by code_simp+
  have h2: "initialised ?s2" "valid_pair ?s2"
    "currentHighlight ?s2 = highlightsInCurrentStep ?s2 \<and> currentStep ?s2 + 1 = totalSteps ?s2 \<and>
     highlightsAt (highlightsPerStep ?s2) (currentStep ?s2) = 0" by code_simp+
  have h1: "initialised slide_1" "valid_pair slide_1"
    "currentHighlight slide_1 + 1 = highlightsInCurrentStep slide_1 \<and> currentStep slide_1 = totalSteps slide_1"
    by code_simp+
  show ?thesis
    using nextStep_result_not_uniform[OF h0(1,2)] nextStep_result_not_uniform[OF h2(1,2)]
      nextStep_result_not_uniform[OF h1(1,2)] h0 h1 h2
    by blast
qed

section \<open>Properties of the matcher\<close>

lemma rx_match_Lit_app: "rx_match (Lit s) k pre (s @ r) cs = k (rev s @ pre) r cs"
  by simp

lemma rx_match_Lit_fail: "\<not> prefix s rest \<Longrightarrow> rx_match (Lit s) k pre rest cs = None"
  by simp

lemma star_greedy_all:
  "\<forall>x\<in>set w. in_cc c x \<Longrightarrow> rest = [] \<or> \<not> in_cc c (hd rest) \<Longrightarrow>
   k (rev w @ pre) rest cs = Some r \<Longrightarrow> star_greedy c k pre (w @ rest) cs = Some r"
proof (induction w arbitrary: pre)
  case Nil
  then show ?case by (cases rest) auto
next
  case (Cons x w)
  have "star_greedy c k (x # pre) (w @ rest) cs = Some r"
    using Cons.IH[of "x # pre"] Cons.prems by simp
  then show ?case using Cons.prems(1) by simp
qed

lemma star_greedy_sound:
  "star_greedy c k pre rest cs = Some r \<Longrightarrow>
   \<exists>w rest'. rest = w @ rest' \<and> (\<forall>x\<in>set w. in_cc c x) \<and> k (rev w @ pre) rest' cs = Some r"
proof (induction rest arbitrary: pre)
  case Nil
  then show ?case by simp
next
  case (Cons x xs)
  show ?case
  proof (cases "in_cc c x \<and> star_greedy c k (x # pre) xs cs \<noteq> None")
    case True
    then have "star_greedy c k (x # pre) xs cs = Some r"
      using Cons.prems by (auto split: option.splits)
    from Cons.IH[OF this] obtain w rest' where
      w: "xs = w @ rest'" "\<forall>x\<in>set w. in_cc c x" "k (rev w @ x # pre) rest' cs = Some r"
      by blast
    show ?thesis
      by (rule exI[of _ "x # w"], rule exI[of _ rest']) (use w True in simp)
  next
    case False
    then have "k pre (x # xs) cs = Some r"
      using Cons.prems by (auto split: option.splits if_splits)
    then show ?thesis
      by (intro exI[of _ "[]"] exI[of _ "x # xs"]) simp
  qed
qed

lemma star_greedy_nonfail:
  "k pre rest cs \<noteq> None \<Longrightarrow> star_greedy c k pre rest cs \<noteq> None"
  by (cases rest) (auto split: option.splits)

lemma star_greedy_fail:
  "(\<And>u v. rest = u @ v \<Longrightarrow> k (rev u @ pre) v cs = None) \<Longrightarrow> star_greedy c k pre rest cs = None"
proof (induction rest arbitrary: pre)
  case Nil
  then show ?case by simp
next
  case (Cons x xs)
  have here: "k pre (x # xs) cs = None" using Cons.prems[of "[]" "x # xs"] by simp
  have "star_greedy c k (x # pre) xs cs = None"
  proof (rule Cons.IH)
    fix u v assume "xs = u @ v"
    then show "k (rev u @ x # pre) v cs = None" using Cons.prems[of "x # u" v] by simp
  qed
  then show ?case using here by simp
qed

lemma star_lazy_here:
  "k pre rest cs = Some r \<Longrightarrow> star_lazy c k pre rest cs = Some r"
  by (cases rest) auto

lemma star_lazy_skip:
  "(\<And>u v. w = u @ v \<Longrightarrow> v \<noteq> [] \<Longrightarrow> k (rev u @ pre) (v @ rest) cs = None) \<Longrightarrow>
   \<forall>x\<in>set w. in_cc c x \<Longrightarrow>
   star_lazy c k pre (w @ rest) cs = star_lazy c k (rev w @ pre) rest cs"
proof (induction w arbitrary: pre)
  case Nil
  then show ?case by simp
next
  case (Cons x w)
  have here: "k pre (x # w @ rest) cs = None" using Cons.prems(1)[of "[]" "x # w"] by simp
  have "star_lazy c k (x # pre) (w @ rest) cs = star_lazy c k (rev w @ x # pre) rest cs"
  proof (rule Cons.IH)
    fix u v assume "w = u @ v" "v \<noteq> []"
    then show "k (rev u @ x # pre) (v @ rest) cs = None"
      using Cons.prems(1)[of "x # u" v] by simp
  next
    show "\<forall>x\<in>set w. in_cc c x" using Cons.prems(2) by simp
  qed
  then show ?case using here Cons.prems(2) by simp
qed

lemma star_lazy_sound:
  "star_lazy c k pre rest cs = Some r \<Longrightarrow>
   \<exists>w rest'. rest = w @ rest' \<and> (\<forall>x\<in>set w. in_cc c x) \<and> k (rev w @ pre) rest' cs = Some r"
proof (induction rest arbitrary: pre)
  case Nil
  then show ?case by simp
next
  case (Cons x xs)
  show ?case
  proof (cases "k pre (x # xs) cs")
    case (Some a)
    then have "k pre (x # xs) cs = Some r" using Cons.prems by simp
    then show ?thesis by (intro exI[of _ "[]"] exI[of _ "x # xs"]) simp
  next
    case None
    then have ix: "in_cc c x" and "star_lazy c k (x # pre) xs cs = Some r"
      using Cons.prems by (auto split: if_splits)
    from Cons.IH[OF this(2)] obtain w rest' where
      w: "xs = w @ rest'" "\<forall>x\<in>set w. in_cc c x" "k (rev w @ x # pre) rest' cs = Some r"
      by blast
    show ?thesis
      by (rule exI[of _ "x # w"], rule exI[of _ rest']) (use w ix in simp)
  qed
qed

lemma star_lazy_fail:
  "(\<And>u v. rest = u @ v \<Longrightarrow> k (rev u @ pre) v cs = None) \<Longrightarrow> star_lazy c k pre rest cs = None"
proof (induction rest arbitrary: pre)
  case Nil
  then show ?case by simp
next
  case (Cons x xs)
  have here: "k pre (x # xs) cs = None" using Cons.prems[of "[]" "x # xs"] by simp
  have "star_lazy c k (x # pre) xs cs = None"
  proof (rule Cons.IH)
    fix u v assume "xs = u @ v"
    then show "k (rev u @ x # pre) v cs = None" using Cons.prems[of "x # u" v] by simp
  qed
  then show ?case using here by simp
qed

lemma search_here:
  "rx_match r accept pre rest [] = Some res \<Longrightarrow> search r pre rest = Some (0, res)"
  by (cases rest) auto

lemma search_skip:
  "(\<And>u v. a = u @ v \<Longrightarrow> v \<noteq> [] \<Longrightarrow> rx_match r accept (rev u @ pre) (v @ b) [] = None) \<Longrightarrow>
   search r pre (a @ b) =
     map_option (\<lambda>(k, res). (length a + k, res)) (search r (rev a @ pre) b)"
proof (induction a arbitrary: pre)
  case Nil
  then show ?case by (simp add: option.map_ident case_prod_unfold)
next
  case (Cons x a)
  have here: "rx_match r accept pre (x # a @ b) [] = None"
    using Cons.prems[of "[]" "x # a"] by simp
  have "search r (x # pre) (a @ b) =
        map_option (\<lambda>(k, res). (length a + k, res)) (search r (rev a @ x # pre) b)"
  proof (rule Cons.IH)
    fix u v assume "a = u @ v" "v \<noteq> []"
    then show "rx_match r accept (rev u @ x # pre) (v @ b) [] = None"
      using Cons.prems[of "x # u" v] by simp
  qed
  then show ?case using here
    by (simp add: option.map_comp comp_def case_prod_unfold)
qed

lemma search_fail:
  "(\<And>u v. rest = u @ v \<Longrightarrow> rx_match r accept (rev u @ pre) v [] = None) \<Longrightarrow>
   search r pre rest = None"
proof (induction rest arbitrary: pre)
  case Nil
  then show ?case using Nil[of "[]" "[]"] by simp
next
  case (Cons x xs)
  have here: "rx_match r accept pre (x # xs) [] = None" using Cons.prems[of "[]" "x # xs"] by simp
  have "search r (x # pre) xs = None"
  proof (rule Cons.IH)
    fix u v assume "xs = u @ v"
    then show "rx_match r accept (rev u @ x # pre) v [] = None"
      using Cons.prems[of "x # u" v] by simp
  qed
  then show ?case using here by simp
qed

lemma search_sound:
  "search r pre rest = Some (k, res) \<Longrightarrow>
   k \<le> length rest \<and> rx_match r accept (rev (take k rest) @ pre) (drop k rest) [] = Some res"
proof (induction rest arbitrary: pre k)
  case Nil
  then show ?case by auto
next
  case (Cons x xs)
  show ?case
  proof (cases "rx_match r accept pre (x # xs) []")
    case (Some a)
    then show ?thesis using Cons.prems by simp
  next
    case None
    then obtain j where j: "search r (x # pre) xs = Some (j, res)" "k = Suc j"
      using Cons.prems by auto
    from Cons.IH[OF j(1)] show ?thesis using j(2) by simp
  qed
qed

lemma scan_None: "search r pre rest = None \<Longrightarrow> scan r pre rest = []"
  by (simp add: scan.simps)

lemma scan_Some:
  "search r pre rest = Some (k, (pre', rest', cs)) \<Longrightarrow>
   scan r pre rest =
     (length pre + k, take (length rest - k - length rest') (drop k rest), cs) #
     (if rest = [] then []
      else scan r (rev (take (k + max (length rest - k - length rest') 1) rest) @ pre)
                  (drop (k + max (length rest - k - length rest') 1) rest))"
  by (subst scan.simps) (simp add: Let_def)

lemma scan_sound:
  "mt \<in> set (scan r pre rest) \<Longrightarrow>
   \<exists>u v pre' rest' cs. rest = u @ v \<and>
      rx_match r accept (rev u @ pre) v [] = Some (pre', rest', cs) \<and>
      mt = (length pre + length u, take (length v - length rest') v, cs)"
proof (induction r pre rest rule: scan.induct)
  case (1 r pre rest)
  show ?case
  proof (cases "search r pre rest")
    case None
    then show ?thesis using "1.prems" by (simp add: scan_None)
  next
    case (Some a)
    then obtain k pre' rest' cs where a: "search r pre rest = Some (k, (pre', rest', cs))"
      by (cases a) auto
    let ?n = "length rest - k - length rest'"
    let ?step = "k + max ?n 1"
    note sc = scan_Some[OF a]
    from search_sound[OF a] have k: "k \<le> length rest"
      and m: "rx_match r accept (rev (take k rest) @ pre) (drop k rest) [] = Some (pre', rest', cs)"
      by simp_all
    show ?thesis
    proof (cases "mt = (length pre + k, take ?n (drop k rest), cs)")
      case True
      show ?thesis
        apply (rule exI[of _ "take k rest"], rule exI[of _ "drop k rest"])
        apply (rule exI[of _ pre'], rule exI[of _ rest'], rule exI[of _ cs])
        using True m k by simp
    next
      case False
      then have ne: "rest \<noteq> []" and mem: "mt \<in> set (scan r (rev (take ?step rest) @ pre) (drop ?step rest))"
        using "1.prems" sc by (auto split: if_splits)
      from "1.IH"[OF a refl refl refl refl refl ne mem]
      obtain u v p' r' c' where
        uv: "drop ?step rest = u @ v"
        "rx_match r accept (rev u @ rev (take ?step rest) @ pre) v [] = Some (p', r', c')"
        "mt = (length (rev (take ?step rest) @ pre) + length u, take (length v - length r') v, c')"
        by blast
      have r: "rest = (take ?step rest @ u) @ v"
        using uv(1) by (metis append.assoc append_take_drop_id)
      show ?thesis
        apply (rule exI[of _ "take ?step rest @ u"], rule exI[of _ v])
        apply (rule exI[of _ p'], rule exI[of _ r'], rule exI[of _ c'])
        using r uv by (simp add: ac_simps)
    qed
  qed
qed

lemma rx_match_sound:
  "rx_match r k pre rest cs = Some res \<Longrightarrow>
   \<exists>w rest' cs'. rest = w @ rest' \<and> k (rev w @ pre) rest' (cs' @ cs) = Some res \<and>
      fst ` set cs' \<subseteq> rx_groups r"
proof (induction r arbitrary: k pre rest cs)
  case (Lit s)
  then have p: "prefix s rest" and k: "k (rev s @ pre) (drop (length s) rest) cs = Some res"
    by (auto split: if_splits)
  from p obtain t where t: "rest = s @ t" by (auto simp: prefix_def)
  show ?case
    by (rule exI[of _ s], rule exI[of _ t], rule exI[of _ "[]"]) (use t k in simp)
next
  case (One c)
  then obtain x xs where x: "rest = x # xs" "k (x # pre) xs cs = Some res"
    by (cases rest) (auto split: if_splits)
  show ?case
    by (rule exI[of _ "[x]"], rule exI[of _ xs], rule exI[of _ "[]"]) (use x in simp)
next
  case (Star c)
  then have "star_greedy c k pre rest cs = Some res" by simp
  from star_greedy_sound[OF this] obtain w rest' where
    "rest = w @ rest'" "k (rev w @ pre) rest' cs = Some res" by blast
  then show ?case
    by (intro exI[of _ w] exI[of _ rest'] exI[of _ "[]"]) simp
next
  case (StarLazy c)
  then have "star_lazy c k pre rest cs = Some res" by simp
  from star_lazy_sound[OF this] obtain w rest' where
    "rest = w @ rest'" "k (rev w @ pre) rest' cs = Some res" by blast
  then show ?case
    by (intro exI[of _ w] exI[of _ rest'] exI[of _ "[]"]) simp
next
  case (Seq a b)
  then have "rx_match a (rx_match b k) pre rest cs = Some res" by simp
  from Seq.IH(1)[OF this] obtain w1 rest1 cs1 where
    a: "rest = w1 @ rest1" "rx_match b k (rev w1 @ pre) rest1 (cs1 @ cs) = Some res"
       "fst ` set cs1 \<subseteq> rx_groups a" by blast
  from Seq.IH(2)[OF a(2)] obtain w2 rest2 cs2 where
    b: "rest1 = w2 @ rest2" "k (rev w2 @ rev w1 @ pre) rest2 (cs2 @ cs1 @ cs) = Some res"
       "fst ` set cs2 \<subseteq> rx_groups b" by blast
  show ?case
    by (rule exI[of _ "w1 @ w2"], rule exI[of _ rest2], rule exI[of _ "cs2 @ cs1"])
       (use a b in auto)
next
  case (Alt a b)
  show ?case
  proof (cases "rx_match a k pre rest cs")
    case None
    then have "rx_match b k pre rest cs = Some res" using Alt.prems by simp
    from Alt.IH(2)[OF this] show ?thesis by fastforce
  next
    case (Some x)
    then have "rx_match a k pre rest cs = Some res" using Alt.prems by simp
    from Alt.IH(1)[OF this] show ?thesis by fastforce
  qed
next
  case (Opt a)
  show ?case
  proof (cases "rx_match a k pre rest cs")
    case None
    then have "k pre rest cs = Some res" using Opt.prems by simp
    then show ?thesis
      by (intro exI[of _ "[]"] exI[of _ rest]) simp
  next
    case (Some x)
    then have "rx_match a k pre rest cs = Some res" using Opt.prems by simp
    from Opt.IH[OF this] show ?thesis by fastforce
  qed
next
  case (Group n a)
  let ?k = "\<lambda>pre' rest' cs'. k pre' rest' ((n, rev (take (length pre' - length pre) pre')) # cs')"
  from Group.prems have "rx_match a ?k pre rest cs = Some res" by simp
  from Group.IH[OF this] obtain w rest' cs' where
    w: "rest = w @ rest'" "?k (rev w @ pre) rest' (cs' @ cs) = Some res"
       "fst ` set cs' \<subseteq> rx_groups a" by blast
  show ?case
    by (rule exI[of _ w], rule exI[of _ rest'], rule exI[of _ "(n, w) # cs'"])
       (use w in auto)
next
  case (NotAhead a)
  then have "k pre rest cs = Some res" by (auto split: option.splits)
  then show ?case by (intro exI[of _ "[]"] exI[of _ rest]) simp
next
  case Bol
  then have "k pre rest cs = Some res" by (auto split: if_splits)
  then show ?case by (intro exI[of _ "[]"] exI[of _ rest]) simp
next
  case Eol
  then have "k pre rest cs = Some res" by (auto split: if_splits)
  then show ?case by (intro exI[of _ "[]"] exI[of _ rest]) simp
next
  case BolM
  then have "k pre rest cs = Some res" by (auto split: if_splits)
  then show ?case by (intro exI[of _ "[]"] exI[of _ rest]) simp
next
  case EolM
  then have "k pre rest cs = Some res" by (auto split: if_splits)
  then show ?case by (intro exI[of _ "[]"] exI[of _ rest]) simp
qed

text \<open>A capture group around a repeated class: the capture is the text consumed.\<close>

lemma rx_match_Group_Many1:
  assumes "rx_match (Group n (Many1 c)) k pre rest cs = Some res"
  shows "\<exists>x w rest'. rest = (x # w) @ rest' \<and> (\<forall>y\<in>set (x # w). in_cc c y) \<and>
           k (rev (x # w) @ pre) rest' ((n, x # w) # cs) = Some res"
proof -
  let ?k = "\<lambda>pre' rest' cs'. k pre' rest' ((n, rev (take (length pre' - length pre) pre')) # cs')"
  from assms obtain x xs where x: "rest = x # xs" "in_cc c x"
    "star_greedy c ?k (x # pre) xs cs = Some res"
    by (cases rest) (auto simp: Many1_def split: if_splits)
  from star_greedy_sound[OF x(3)] obtain w rest' where
    w: "xs = w @ rest'" "\<forall>y\<in>set w. in_cc c y" "?k (rev w @ x # pre) rest' cs = Some res"
    by blast
  show ?thesis
    by (rule exI[of _ x], rule exI[of _ w], rule exI[of _ rest']) (use x w in simp)
qed

lemma star_greedy_None_iff:
  "star_greedy c k pre rest cs = None \<longleftrightarrow>
   (\<forall>u v. rest = u @ v \<and> (\<forall>x\<in>set u. in_cc c x) \<longrightarrow> k (rev u @ pre) v cs = None)"
proof (induction rest arbitrary: pre)
  case Nil
  then show ?case by simp
next
  case (Cons x xs)
  show ?case
  proof (cases "in_cc c x")
    case False
    have "(\<forall>u v. x # xs = u @ v \<and> (\<forall>y\<in>set u. in_cc c y) \<longrightarrow> k (rev u @ pre) v cs = None)
          \<longleftrightarrow> k pre (x # xs) cs = None"
    proof
      assume a: "\<forall>u v. x # xs = u @ v \<and> (\<forall>y\<in>set u. in_cc c y) \<longrightarrow> k (rev u @ pre) v cs = None"
      show "k pre (x # xs) cs = None" using a[rule_format, of "[]" "x # xs"] by simp
    next
      assume a: "k pre (x # xs) cs = None"
      show "\<forall>u v. x # xs = u @ v \<and> (\<forall>y\<in>set u. in_cc c y) \<longrightarrow> k (rev u @ pre) v cs = None"
      proof (intro allI impI)
        fix u v assume uv: "x # xs = u @ v \<and> (\<forall>y\<in>set u. in_cc c y)"
        then have "u = []" using False by (cases u) auto
        then show "k (rev u @ pre) v cs = None" using uv a by simp
      qed
    qed
    then show ?thesis using False by simp
  next
    case True
    have "(\<forall>u v. x # xs = u @ v \<and> (\<forall>y\<in>set u. in_cc c y) \<longrightarrow> k (rev u @ pre) v cs = None)
          \<longleftrightarrow> k pre (x # xs) cs = None \<and>
              (\<forall>u v. xs = u @ v \<and> (\<forall>y\<in>set u. in_cc c y) \<longrightarrow> k (rev u @ x # pre) v cs = None)"
      (is "?L \<longleftrightarrow> ?R")
    proof
      assume a: ?L
      have 1: "k pre (x # xs) cs = None" using a[rule_format, of "[]" "x # xs"] by simp
      have 2: "\<forall>u v. xs = u @ v \<and> (\<forall>y\<in>set u. in_cc c y) \<longrightarrow> k (rev u @ x # pre) v cs = None"
      proof (intro allI impI)
        fix u v assume "xs = u @ v \<and> (\<forall>y\<in>set u. in_cc c y)"
        then show "k (rev u @ x # pre) v cs = None"
          using a[rule_format, of "x # u" v] True by simp
      qed
      show ?R using 1 2 by blast
    next
      assume a: ?R
      show ?L
      proof (intro allI impI)
        fix u v assume uv: "x # xs = u @ v \<and> (\<forall>y\<in>set u. in_cc c y)"
        show "k (rev u @ pre) v cs = None"
        proof (cases u)
          case Nil
          then show ?thesis using uv a by simp
        next
          case (Cons y ys)
          then have "xs = ys @ v \<and> (\<forall>y\<in>set ys. in_cc c y)" "y = x" using uv by auto
          then show ?thesis using a Cons by simp
        qed
      qed
    qed
    moreover have "star_greedy c k pre (x # xs) cs = None \<longleftrightarrow>
            k pre (x # xs) cs = None \<and> star_greedy c k (x # pre) xs cs = None"
      using True by (auto split: option.splits)
    ultimately show ?thesis using Cons.IH[of "x # pre"] by simp
  qed
qed

lemma first_match_at_start:
  "rx_match r accept [] (a @ b) [] = Some (p, b, cs) \<Longrightarrow> first_match r (a @ b) = Some (0, a, cs)"
  by (simp add: first_match_def search_here)

text \<open>
  Patterns that begin with a literal have no match in a text where the literal does not
  occur, and a pattern that matches at one place only has one match.
\<close>

lemma no_triple:
  assumes "ob \<notin> set pre" "ob \<notin> set rest" "rest \<noteq> []" "hd rest \<noteq> h"
    and "pre @ [ob, ob] @ rest = a @ v"
  shows "\<not> prefix [ob, ob, h] v"
proof
  assume "prefix [ob, ob, h] v"
  then obtain b where v: "v = [ob, ob, h] @ b" by (auto simp: prefix_def)
  let ?T = "pre @ [ob, ob] @ rest"
  have T: "?T = a @ [ob, ob, h] @ b" using assms(5) v by simp
  have pos: "\<And>i. i < length ?T \<Longrightarrow> ?T ! i = ob \<Longrightarrow> i = length pre \<or> i = Suc (length pre)"
  proof -
    fix i assume i: "i < length ?T" "?T ! i = ob"
    show "i = length pre \<or> i = Suc (length pre)"
    proof (rule ccontr)
      assume n: "\<not> (i = length pre \<or> i = Suc (length pre))"
      show False
      proof (cases "i < length pre")
        case True
        then have "?T ! i = pre ! i" by (simp add: nth_append)
        then show False using i True assms(1) nth_mem by metis
      next
        case False
        with n have g: "i \<ge> length pre + 2" by simp
        then have "?T ! i = rest ! (i - length pre - 2)"
          by (simp add: nth_append nth_Cons')
        moreover have "i - length pre - 2 < length rest" using i g by simp
        ultimately show False using i assms(2) nth_mem by metis
      qed
    qed
  qed
  have l: "length a + 2 < length ?T" unfolding T by simp
  have "?T ! length a = ob" unfolding T by (simp add: nth_append)
  with pos[of "length a"] l have a1: "length a = length pre \<or> length a = Suc (length pre)" by simp
  have "?T ! Suc (length a) = ob" unfolding T by (simp add: nth_append)
  with pos[of "Suc (length a)"] l have "Suc (length a) = length pre \<or> length a = length pre"
    by simp
  with a1 have a: "length a = length pre" by auto
  have "?T ! (length a + 2) = h" unfolding T by (simp add: nth_append)
  moreover have "?T ! (length pre + 2) = hd rest"
    using assms(3) by (simp add: nth_append hd_conv_nth)
  ultimately show False using a assms(4) by simp
qed

lemma match_all_Lit_absent:
  assumes "\<And>u v. s = u @ v \<Longrightarrow> \<not> prefix L v"
  shows "match_all (Seq (Lit L) r) s = []"
proof -
  have "search (Seq (Lit L) r) [] s = None"
    by (rule search_fail) (simp add: assms)
  then show ?thesis by (simp add: match_all_def scan_None)
qed

lemma prefix_longer: "prefix (a @ b) v \<Longrightarrow> prefix a v"
  by (auto simp: prefix_def)

lemma match_all_single:
  assumes skip: "\<And>u v. pre = u @ v \<Longrightarrow> v \<noteq> [] \<Longrightarrow>
                   rx_match r accept (rev u @ []) (v @ m @ post) [] = None"
    and here: "rx_match r accept (rev pre @ []) (m @ post) [] = Some (p', post, cs)"
    and m: "m \<noteq> []"
    and after: "\<And>u v. post = u @ v \<Longrightarrow> rx_match r accept (rev u @ rev (pre @ m)) v [] = None"
  shows "match_all r (pre @ m @ post) = [(length pre, m, cs)]"
proof -
  let ?T = "pre @ m @ post"
  have "search r [] ?T =
          map_option (\<lambda>(k, res). (length pre + k, res)) (search r (rev pre @ []) (m @ post))"
    by (rule search_skip[OF skip])
  also have "search r (rev pre @ []) (m @ post) = Some (0, (p', post, cs))"
    using here by (rule search_here)
  finally have s1: "search r [] ?T = Some (length pre, (p', post, cs))" by simp
  have "search r (rev (pre @ m)) post = None"
    by (rule search_fail) (rule after)
  then have s2: "scan r (rev (pre @ m)) post = []" by (rule scan_None)
  have l: "length ?T - length pre - length post = length m" by simp
  have mx: "max (length m) 1 = length m" using m by (cases m) auto
  have t: "take (length pre + length m) ?T = pre @ m" by simp
  have d: "drop (length pre + length m) ?T = post" by simp
  have "scan r [] ?T = [(length pre, m, cs)]"
    unfolding scan_Some[OF s1] l mx t d using s2 m by simp
  then show ?thesis by (simp add: match_all_def)
qed

text \<open>
  White space followed by a literal that does not begin with white space; a greedy
  repetition that gives back what the rest of the pattern needs; one step of the scan
  for all matches, and its end; and texts that \<open>trim\<close> leaves as they are.
\<close>

lemma rx_match_Star_fun: "rx_match (Star c) k = star_greedy c k"
  by (intro ext) simp

lemma prefix_shorter:
  assumes "prefix L (x @ y)" "length L \<le> length x"
  shows "prefix L x"
  using assms unfolding prefix_append by (auto simp: prefix_def)

lemma rx_match_Seq_fun: "rx_match (Seq a b) k = rx_match a (rx_match b k)"
  by (intro ext) simp

lemma spaces_then_lit:
  assumes "s \<noteq> []" "\<not> is_space (hd s)"
  shows "star_greedy Space (rx_match (Lit s) k) pre rest cs =
     (if prefix s (dropWhile is_space rest)
      then k (rev s @ rev (takeWhile is_space rest) @ pre)
             (drop (length s) (dropWhile is_space rest)) cs
      else None)"
proof (induction rest arbitrary: pre)
  case Nil
  then show ?case using assms by simp
next
  case (Cons x xs)
  show ?case
  proof (cases "is_space x")
    case True
    have "\<not> prefix s (x # xs)" using assms True by (cases s) auto
    then show ?thesis using True Cons.IH[of "x # pre"] by (simp split: option.splits)
  next
    case False
    then show ?thesis by simp
  qed
qed

lemma star_greedy_prio:
  assumes w: "\<forall>x\<in>set w. in_cc c x"
    and here: "k (rev w @ pre) rest cs = Some r"
    and longer: "\<And>u v. rest = u @ v \<Longrightarrow> u \<noteq> [] \<Longrightarrow> \<forall>x\<in>set u. in_cc c x \<Longrightarrow>
                   k (rev u @ rev w @ pre) v cs = None"
  shows "star_greedy c k pre (w @ rest) cs = Some r"
  using w here longer
proof (induction w arbitrary: pre)
  case Nil
  show ?case
  proof (cases rest)
    case Nil
    then show ?thesis using Nil.prems(2) by simp
  next
    case (Cons x xs)
    show ?thesis
    proof (cases "in_cc c x")
      case False
      then show ?thesis using Cons Nil.prems(2) by simp
    next
      case True
      have "star_greedy c k (x # pre) xs cs = None"
        unfolding star_greedy_None_iff
      proof (intro allI impI)
        fix u v assume uv: "xs = u @ v \<and> (\<forall>y\<in>set u. in_cc c y)"
        have "k (rev (x # u) @ rev [] @ pre) v cs = None"
          by (rule Nil.prems(3)) (use uv Cons True in auto)
        then show "k (rev u @ x # pre) v cs = None" by simp
      qed
      then show ?thesis using Cons True Nil.prems(2) by simp
    qed
  qed
next
  case (Cons x w)
  have "star_greedy c k (x # pre) (w @ rest) cs = Some r"
  proof (rule Cons.IH)
    show "\<forall>x\<in>set w. in_cc c x" using Cons.prems(1) by simp
    show "k (rev w @ x # pre) rest cs = Some r" using Cons.prems(2) by simp
    fix u v assume "rest = u @ v" "u \<noteq> []" "\<forall>x\<in>set u. in_cc c x"
    from Cons.prems(3)[OF this] show "k (rev u @ rev w @ x # pre) v cs = None" by simp
  qed
  then show ?case using Cons.prems(1) by simp
qed

lemma scan_step:
  assumes skip: "\<And>u v. a = u @ v \<Longrightarrow> v \<noteq> [] \<Longrightarrow>
                   rx_match r accept (rev u @ P) (v @ m @ rest) [] = None"
    and here: "rx_match r accept (rev a @ P) (m @ rest) [] = Some (p', rest, cs)"
    and m: "m \<noteq> []"
  shows "scan r P (a @ m @ rest) =
           (length P + length a, m, cs) # scan r (rev (a @ m) @ P) rest"
proof -
  let ?T = "a @ m @ rest"
  have "search r P ?T =
          map_option (\<lambda>(k, res). (length a + k, res)) (search r (rev a @ P) (m @ rest))"
    by (rule search_skip[OF skip])
  also have "search r (rev a @ P) (m @ rest) = Some (0, (p', rest, cs))"
    using here by (rule search_here)
  finally have s1: "search r P ?T = Some (length a, (p', rest, cs))" by simp
  have l: "length ?T - length a - length rest = length m" by simp
  have mx: "max (length m) 1 = length m" using m by (cases m) auto
  have t: "take (length a + length m) ?T = a @ m" by simp
  have d: "drop (length a + length m) ?T = rest" by simp
  show ?thesis
    unfolding scan_Some[OF s1] l mx t d using m by simp
qed

lemma scan_end:
  assumes "\<And>u v. t = u @ v \<Longrightarrow> rx_match r accept (rev u @ P) v [] = None"
  shows "scan r P t = []"
  by (rule scan_None, rule search_fail) (rule assms)

lemma trim_id:
  assumes "s \<noteq> []" "\<not> is_space (hd s)" "\<not> is_space (last s)"
  shows "trim s = s"
proof -
  have 1: "dropWhile is_space s = s" using assms by (cases s) auto
  have "rev s \<noteq> []" "\<not> is_space (hd (rev s))" using assms by (simp_all add: hd_rev)
  then have 2: "dropWhile is_space (rev s) = rev s" by (cases "rev s") auto
  show ?thesis by (simp add: trim_def 1 2)
qed

lemma spaces_dropWhile:
  assumes "list_all is_space ws" "x \<noteq> []" "\<not> is_space (hd x)"
  shows "dropWhile is_space (ws @ x @ y) = x @ y" "takeWhile is_space (ws @ x @ y) = ws"
proof -
  obtain c cs where x: "x = c # cs" using assms(2) by (cases x) auto
  have c: "\<not> is_space c" using assms(3) x by simp
  have ws: "\<forall>z\<in>set ws. is_space z" using assms(1) by (simp add: list_all_iff)
  show "dropWhile is_space (ws @ x @ y) = x @ y"
    using ws c x by (simp add: dropWhile_append)
  show "takeWhile is_space (ws @ x @ y) = ws"
    using ws c x by (simp add: takeWhile_append)
qed

section \<open>Parameter strings\<close>

lemma fold_set_param_key:
  "fold set_param ms m key = Some v \<Longrightarrow>
   m key = Some v \<or> (\<exists>mt\<in>set ms. group 1 mt = Some key)"
proof (induction ms arbitrary: m)
  case Nil
  then show ?case by simp
next
  case (Cons mt ms)
  from Cons.IH[of "set_param mt m"] Cons.prems
  have "set_param mt m key = Some v \<or> (\<exists>mt\<in>set ms. group 1 mt = Some key)" by simp
  then show ?case
    by (auto simp: set_param_def split: option.splits if_splits)
qed

lemma paramPattern_groups:
  "rx_groups (seqs [Star Space, Lit ''='', Star Space,
           Alt (seqs [Lit [dq], Group 2 (Star (Neg (Chars [dq]))), Lit [dq]])
            (Alt (seqs [Lit [sq], Group 3 (Star (Neg (Chars [sq]))), Lit [sq]])
                 (Group 4 (Many1 (Neg (Union (Chars '','') Space)))))]) = {2, 3, 4}"
  by (auto simp: Many1_def)

lemma paramPattern_match:
  assumes "rx_match paramPattern accept pre rest [] = Some (pre', rest', cs)"
  shows "\<exists>key ws post. rest = key @ ws @ ''='' @ post \<and> key \<noteq> [] \<and>
           (\<forall>y\<in>set key. in_cc (Union Word (Chars ''-'')) y) \<and> (\<forall>y\<in>set ws. is_space y) \<and>
           map_of cs 1 = Some key"
proof -
  let ?tail = "seqs [Star Space, Lit ''='', Star Space,
           Alt (seqs [Lit [dq], Group 2 (Star (Neg (Chars [dq]))), Lit [dq]])
            (Alt (seqs [Lit [sq], Group 3 (Star (Neg (Chars [sq]))), Lit [sq]])
                 (Group 4 (Many1 (Neg (Union (Chars '','') Space)))))]"
  have pat: "paramPattern = Seq (Group 1 (Many1 (Union Word (Chars ''-'')))) ?tail"
    by (simp add: paramPattern_def)
  from assms have "rx_match (Group 1 (Many1 (Union Word (Chars ''-'')))) (rx_match ?tail accept)
                     pre rest [] = Some (pre', rest', cs)"
    by (simp add: pat)
  from rx_match_Group_Many1[OF this] obtain x w rest1 where
    k: "rest = (x # w) @ rest1" "\<forall>y\<in>set (x # w). in_cc (Union Word (Chars ''-'')) y"
       "rx_match ?tail accept (rev (x # w) @ pre) rest1 [(1, x # w)] = Some (pre', rest', cs)"
    by blast
  text \<open>the white space and the equals sign\<close>
  let ?tail2 = "seqs [Lit ''='', Star Space,
           Alt (seqs [Lit [dq], Group 2 (Star (Neg (Chars [dq]))), Lit [dq]])
            (Alt (seqs [Lit [sq], Group 3 (Star (Neg (Chars [sq]))), Lit [sq]])
                 (Group 4 (Many1 (Neg (Union (Chars '','') Space)))))]"
  have "star_greedy Space (rx_match ?tail2 accept) (rev (x # w) @ pre) rest1 [(1, x # w)]
          = Some (pre', rest', cs)"
    using k(3) by simp
  from star_greedy_sound[OF this] obtain ws rest2 where
    ws: "rest1 = ws @ rest2" "\<forall>y\<in>set ws. in_cc Space y"
        "rx_match ?tail2 accept (rev ws @ rev (x # w) @ pre) rest2 [(1, x # w)] = Some (pre', rest', cs)"
    by blast
  from ws(3) have "prefix ''='' rest2" by (auto split: if_splits)
  then obtain post where post: "rest2 = ''='' @ post" by (auto simp: prefix_def)
  text \<open>the captures made after the key are those of groups 2, 3 and 4\<close>
  from rx_match_sound[OF k(3)] obtain cs' where
    cs': "cs = cs' @ [(1, x # w)]" "fst ` set cs' \<subseteq> rx_groups ?tail"
    by (auto simp: accept_def)
  have "1 \<notin> fst ` set cs'" using cs'(2) unfolding paramPattern_groups by auto
  then have "map_of cs' (1::nat) = None" by (simp add: map_of_eq_None_iff)
  then have cap: "map_of cs 1 = Some (x # w)" by (simp add: cs'(1) map_add_def map_of_append)
  show ?thesis
    by (rule exI[of _ "x # w"], rule exI[of _ ws], rule exI[of _ post])
       (use k ws post cap in simp)
qed

lemma parseParams_key_shape:
  assumes "parseParams paramStr key = Some v"
  shows "key \<noteq> [] \<and> (\<forall>c\<in>set key. is_word c \<or> c = CHR ''-'') \<and>
         (\<exists>before ws after. paramStr = before @ key @ ws @ ''='' @ after \<and>
                             (\<forall>c\<in>set ws. is_space c))"
proof -
  from assms have "fold set_param (match_all paramPattern paramStr) Map.empty key = Some v"
    by (auto simp: parseParams_def split: if_splits)
  from fold_set_param_key[OF this] obtain mt where
    mt: "mt \<in> set (scan paramPattern [] paramStr)" "group 1 mt = Some key"
    by (auto simp: match_all_def)
  from scan_sound[OF mt(1)] obtain u v' pre' rest' cs where
    m: "paramStr = u @ v'" "rx_match paramPattern accept (rev u @ []) v' [] = Some (pre', rest', cs)"
       "mt = (length ([]::string) + length u, take (length v' - length rest') v', cs)"
    by blast
  from paramPattern_match[OF m(2)] obtain key' ws post where
    p: "v' = key' @ ws @ ''='' @ post" "key' \<noteq> []"
       "\<forall>y\<in>set key'. in_cc (Union Word (Chars ''-'')) y" "\<forall>y\<in>set ws. is_space y"
       "map_of cs 1 = Some key'"
    by blast
  have "key' = key" using mt(2) m(3) p(5) by (simp add: group_def)
  then show ?thesis
    using p m(1) by auto
qed

lemma parseParams_without_equals:
  assumes "CHR ''='' \<notin> set paramStr"
  shows "parseParams paramStr = Map.empty"
proof (rule ext)
  fix key
  show "parseParams paramStr key = None"
  proof (cases "parseParams paramStr key")
    case None
    then show ?thesis .
  next
    case (Some v)
    from parseParams_key_shape[OF this] obtain before ws after where
      "paramStr = before @ key @ ws @ ''='' @ after" by blast
    then have "CHR ''='' \<in> set paramStr" by simp
    then show ?thesis using assms by simp
  qed
qed

lemma params_example_matches:
  "match_all paramPattern ''src=a.mp4, autoplay'' = [(0, ''src=a.mp4'', [(4, ''a.mp4''), (1, ''src'')])]"
  by code_simp

lemma params_example:
  "parseParams ''src=a.mp4, autoplay'' = [''src'' \<mapsto> ''a.mp4'']"
  by (simp add: parseParams_def params_example_matches set_param_def group_def param_value_def)

text \<open>
  Claim C6 as stated fails: in \<open>src=a.mp4, autoplay\<close> the key \<open>autoplay\<close> stands without an
  equals sign, and the mapping has no entry for it.
\<close>

theorem bare_key_is_dropped:
  "parseParams ''src=a.mp4, autoplay'' ''autoplay'' = None"
  by (simp add: params_example)

text \<open>
  Claim C6, as amended. Only pairs are recorded: every key of the mapping is a non-empty
  run of word characters and hyphens that stands in the parameter string followed, after
  optional white space, by an equals sign. A key token without an equals sign after it
  gets no entry.
\<close>

theorem parseParams_key_has_equals:
  assumes "parseParams paramStr key = Some v"
  shows "key \<noteq> [] \<and> (\<forall>c\<in>set key. is_word c \<or> c = CHR ''-'') \<and>
         (\<exists>before ws after. paramStr = before @ key @ ws @ ''='' @ after \<and>
                             (\<forall>c\<in>set ws. is_space c))"
  using parseParams_key_shape[OF assms] .

text \<open>The entry of \<open>src\<close> in \<open>src=a.mp4, autoplay\<close>.\<close>

theorem parseParams_key_has_equals_witness:
  "parseParams ''src=a.mp4, autoplay'' ''src'' = Some ''a.mp4'' \<and>
   (\<exists>before ws after. ''src=a.mp4, autoplay'' = before @ ''src'' @ ws @ ''='' @ after \<and>
                       (\<forall>c\<in>set ws. is_space c))"
proof -
  have h: "parseParams ''src=a.mp4, autoplay'' ''src'' = Some ''a.mp4''"
    by (simp add: params_example)
  show ?thesis using parseParams_key_has_equals[OF h] h by blast
qed

section \<open>The split at the global marker\<close>

lemma eol_after_spaces:
  assumes "t = u @ v" "\<forall>x\<in>set u. is_space x"
  shows "(v = [] \<or> is_line_terminator (hd v)) \<longrightarrow> line_ends_after t"
proof
  assume e: "v = [] \<or> is_line_terminator (hd v)"
  show "line_ends_after t"
  proof (cases v)
    case Nil
    then have "dropWhile is_space t = []" using assms by simp
    then show ?thesis by (simp add: line_ends_after_def)
  next
    case (Cons y ys)
    then have y: "is_line_terminator y" using e by simp
    then have "is_space y" by (auto simp: is_line_terminator_def is_space_def)
    then have "takeWhile is_space t = u @ y # takeWhile is_space ys"
      using assms Cons by (simp add: takeWhile_append2)
    then show ?thesis using y by (auto simp: line_ends_after_def)
  qed
qed

lemma line_ends_afterD:
  assumes "line_ends_after t"
  shows "\<exists>u v. t = u @ v \<and> (\<forall>x\<in>set u. is_space x) \<and> (v = [] \<or> is_line_terminator (hd v))"
proof (cases "dropWhile is_space t = []")
  case True
  then have "\<forall>x\<in>set t. is_space x" by (simp add: dropWhile_eq_Nil_conv)
  then show ?thesis by (intro exI[of _ t] exI[of _ "[]"]) simp
next
  case False
  then obtain c where c: "c \<in> set (takeWhile is_space t)" "is_line_terminator c"
    using assms by (auto simp: line_ends_after_def)
  from c(1) obtain a b where ab: "takeWhile is_space t = a @ c # b"
    by (auto simp: in_set_conv_decomp)
  have sp: "\<forall>x\<in>set (takeWhile is_space t). is_space x" by (auto dest: set_takeWhileD)
  have t: "t = a @ (c # b @ dropWhile is_space t)"
    using ab takeWhile_dropWhile_id[of is_space t] by (metis append.assoc append_Cons)
  show ?thesis
    by (rule exI[of _ a], rule exI[of _ "c # b @ dropWhile is_space t"])
       (use t sp ab c(2) in auto)
qed

lemma global_tail_fail:
  assumes "\<not> line_ends_after t"
  shows "rx_match (seqs [Lit ''---global'', Star Space, EolM]) accept pre (''---global'' @ t) cs = None"
proof -
  have "star_greedy Space (rx_match EolM accept) (rev ''---global'' @ pre) t cs = None"
    unfolding star_greedy_None_iff
  proof (intro allI impI)
    fix u v assume uv: "t = u @ v \<and> (\<forall>x\<in>set u. in_cc Space x)"
    then have "\<not> (v = [] \<or> is_line_terminator (hd v))"
      using eol_after_spaces[of t u v] assms by auto
    then show "rx_match EolM accept (rev u @ rev ''---global'' @ pre) v cs = None" by simp
  qed
  then show ?thesis by simp
qed

lemma global_tail:
  assumes "line_ends_after post"
  shows "\<exists>ws rest'. post = ws @ rest' \<and> (\<forall>c\<in>set ws. is_space c) \<and>
           (rest' = [] \<or> is_line_terminator (hd rest')) \<and>
           rx_match (seqs [Lit ''---global'', Star Space, EolM]) accept pre (''---global'' @ post) cs =
             Some (rev ws @ rev ''---global'' @ pre, rest', cs)"
proof -
  let ?k = "rx_match EolM accept"
  let ?pre = "rev ''---global'' @ pre"
  from line_ends_afterD[OF assms] obtain u v where
    uv: "post = u @ v" "\<forall>x\<in>set u. is_space x" "v = [] \<or> is_line_terminator (hd v)" by blast
  then have ok: "?k (rev u @ ?pre) v cs \<noteq> None" by (auto simp: accept_def)
  have "star_greedy Space ?k ?pre post cs \<noteq> None"
  proof
    assume "star_greedy Space ?k ?pre post cs = None"
    then have "\<forall>u v. post = u @ v \<and> (\<forall>x\<in>set u. in_cc Space x) \<longrightarrow>
                 ?k (rev u @ ?pre) v cs = None"
      by (simp only: star_greedy_None_iff)
    then have "?k (rev u @ ?pre) v cs = None" using uv(1,2) by simp
    then show False using ok by simp
  qed
  then obtain res where res: "star_greedy Space ?k ?pre post cs = Some res" by auto
  from star_greedy_sound[OF res] obtain ws rest' where
    w: "post = ws @ rest'" "\<forall>x\<in>set ws. in_cc Space x" "?k (rev ws @ ?pre) rest' cs = Some res"
    by blast
  from w(3) have r: "res = (rev ws @ ?pre, rest', cs)" and e: "rest' = [] \<or> is_line_terminator (hd rest')"
    by (auto simp: accept_def split: if_splits)
  have "rx_match (seqs [Lit ''---global'', Star Space, EolM]) accept pre (''---global'' @ post) cs
          = star_greedy Space ?k ?pre post cs"
    by simp
  then show ?thesis using res r e w by auto
qed

lemma split_global_at_marker:
  assumes eol: "line_ends_after post"
    and first: "\<And>u t. before @ ''---global'' @ post = u @ ''---global'' @ t \<Longrightarrow>
                  length u < length before \<Longrightarrow> \<not> line_ends_after t"
  shows "\<exists>ws rest'. post = ws @ rest' \<and> (\<forall>c\<in>set ws. is_space c) \<and>
           (rest' = [] \<or> is_line_terminator (hd rest')) \<and>
           split_global (before @ ''---global'' @ post) = (before, rest')"
proof -
  let ?M = "''---global''"
  let ?tail = "seqs [Lit ?M, Star Space, EolM]"
  let ?s = "before @ ?M @ post"
  let ?K = "\<lambda>pre' rest' cs'. rx_match ?tail accept pre' rest'
              ((1, rev (take (length pre' - length ([]::string)) pre')) # cs')"
  from global_tail[OF eol, of "rev before" "[(1, before)]"] obtain ws rest' where
    w: "post = ws @ rest'" "\<forall>c\<in>set ws. is_space c" "rest' = [] \<or> is_line_terminator (hd rest')"
       "rx_match ?tail accept (rev before) (?M @ post) [(1, before)] =
          Some (rev ws @ rev ?M @ rev before, rest', [(1, before)])"
    by blast
  have skip: "star_lazy AnyChar ?K [] (before @ ?M @ post) [] =
              star_lazy AnyChar ?K (rev before @ []) (?M @ post) []"
  proof (rule star_lazy_skip)
    fix u v assume uv: "before = u @ v" "v \<noteq> []"
    show "?K (rev u @ []) (v @ ?M @ post) [] = None"
    proof (cases "prefix ?M (v @ ?M @ post)")
      case False
      then show ?thesis by simp
    next
      case True
      then obtain t where t: "v @ ?M @ post = ?M @ t" by (auto simp: prefix_def)
      have "before @ ?M @ post = u @ ?M @ t" using uv(1) t by simp
      moreover have "length u < length before" using uv by simp
      ultimately have "\<not> line_ends_after t" by (rule first)
      from global_tail_fail[OF this] show ?thesis unfolding t by simp
    qed
  qed simp
  have here: "star_lazy AnyChar ?K (rev before) (?M @ post) [] =
              Some (rev ws @ rev ?M @ rev before, rest', [(1, before)])"
    by (rule star_lazy_here) (use w(4) in simp)
  have m: "rx_match globalPattern accept [] ?s [] =
           Some (rev ws @ rev ?M @ rev before, rest', [(1, before)])"
    using skip here by (simp add: globalPattern_def)
  have s_eq: "?s = (before @ ?M @ ws) @ rest'" using w(1) by simp
  have "first_match globalPattern ((before @ ?M @ ws) @ rest') =
          Some (0, before @ ?M @ ws, [(1, before)])"
    by (rule first_match_at_start) (use m s_eq in simp)
  then have fm: "first_match globalPattern ?s = Some (0, before @ ?M @ ws, [(1, before)])"
    using s_eq by simp
  have g: "group 1 (0, before @ ?M @ ws, [(1, before)]) = Some before"
    by (simp add: group_def)
  have t: "m_text (0, before @ ?M @ ws, [(1::nat, before)]) = before @ ?M @ ws"
    by (simp only: m_text_def fst_conv snd_conv)
  have "split_global ?s = (before, drop (length (before @ ?M @ ws)) ?s)"
    by (simp only: split_global_def fm option.case g t)
  also have "drop (length (before @ ?M @ ws)) ?s = rest'"
    unfolding s_eq by (rule append_eq_conv_conj[THEN iffD1, THEN conjunct2, symmetric]) simp
  finally show ?thesis using w(1,2,3) by blast
qed

lemma split_global_none:
  assumes "\<And>u t. doc = u @ ''---global'' @ t \<Longrightarrow> \<not> line_ends_after t"
  shows "split_global doc = ([], doc)"
proof -
  let ?M = "''---global''"
  let ?tail = "seqs [Lit ?M, Star Space, EolM]"
  have "search globalPattern [] doc = None"
  proof (rule search_fail)
    fix u v assume uv: "doc = u @ v"
    let ?K = "\<lambda>pre' rest' cs'. rx_match ?tail accept pre' rest'
              ((1, rev (take (length pre' - length (rev u @ [])) pre')) # cs')"
    have "star_lazy AnyChar ?K (rev u @ []) v [] = None"
    proof (rule star_lazy_fail)
      fix u' v' assume uv': "v = u' @ v'"
      show "?K (rev u' @ rev u @ []) v' [] = None"
      proof (cases "prefix ?M v'")
        case False
        then show ?thesis by simp
      next
        case True
        then obtain t where t: "v' = ?M @ t" by (auto simp: prefix_def)
        have "doc = (u @ u') @ ?M @ t" using uv uv' t by simp
        from assms[OF this] have "\<not> line_ends_after t" .
        from global_tail_fail[OF this] show ?thesis unfolding t by simp
      qed
    qed
    then show "rx_match globalPattern accept (rev u @ []) v [] = None"
      by (simp add: globalPattern_def)
  qed
  then show ?thesis by (simp add: split_global_def first_match_def)
qed

lemma candidate_at_bound: "candidate_at doc i \<Longrightarrow> i + 9 \<le> length doc"
proof -
  assume "candidate_at doc i"
  then have "prefix globalMarker (drop i doc)" by (simp add: candidate_at_def)
  then have "length globalMarker \<le> length (drop i doc)" by (rule prefix_length_le)
  then show ?thesis by (simp add: globalMarker_def)
qed

lemma occurrence_decomp:
  assumes "doc = u @ globalMarker @ t"
  shows "prefix globalMarker (drop (length u) doc)"
    and "drop (length u + length globalMarker) doc = t"
  using assms by (simp_all add: add.commute[of "length u"] drop_append)

lemma split_global_first_candidate:
  assumes c: "candidate_at doc i" and first: "\<forall>j<i. \<not> candidate_at doc j"
  shows "\<exists>ws rest'. drop (i + length globalMarker) doc = ws @ rest' \<and> (\<forall>c\<in>set ws. is_space c) \<and>
           (rest' = [] \<or> is_line_terminator (hd rest')) \<and>
           split_global doc = (take i doc, rest')"
proof -
  let ?before = "take i doc"
  let ?post = "drop (i + length globalMarker) doc"
  from c have p: "prefix globalMarker (drop i doc)" and e: "line_ends_after ?post"
    by (simp_all add: candidate_at_def)
  from p obtain t where t: "drop i doc = globalMarker @ t" by (auto simp: prefix_def)
  have i: "i \<le> length doc" using candidate_at_bound[OF c] by simp
  have post: "?post = t"
    using t by (metis add.commute append_eq_conv_conj drop_drop)
  have doc: "doc = ?before @ globalMarker @ ?post"
    using t post by (metis append_take_drop_id)
  have "\<exists>ws rest'. ?post = ws @ rest' \<and> (\<forall>c\<in>set ws. is_space c) \<and>
           (rest' = [] \<or> is_line_terminator (hd rest')) \<and>
           split_global (?before @ ''---global'' @ ?post) = (?before, rest')"
  proof (rule split_global_at_marker[OF e])
    fix u t' assume d: "?before @ ''---global'' @ ?post = u @ ''---global'' @ t'"
      and l: "length u < length ?before"
    have d': "doc = u @ globalMarker @ t'" using d doc by (simp add: globalMarker_def)
    have "length u < i" using l by simp
    then have "\<not> candidate_at doc (length u)" using first by simp
    then show "\<not> line_ends_after t'"
      using occurrence_decomp[OF d'] by (simp add: candidate_at_def)
  qed
  then show ?thesis using doc by (simp add: globalMarker_def)
qed

lemma split_global_no_candidate:
  assumes "\<forall>i. \<not> candidate_at doc i"
  shows "split_global doc = ([], doc)"
proof (rule split_global_none)
  fix u t assume d: "doc = u @ ''---global'' @ t"
  then have d': "doc = u @ globalMarker @ t" by (simp add: globalMarker_def)
  have "\<not> candidate_at doc (length u)" using assms by simp
  then show "\<not> line_ends_after t"
    using occurrence_decomp[OF d'] by (simp add: candidate_at_def)
qed

text \<open>
  Claim C8, as amended. The document is split at the first position where the text
  \<open>---global\<close> stands with only white space after it up to the end of its line: the
  definitions region is all the text before that position, the text before the marker
  on the marker's own line included, and the slides region starts in the white space
  after the marker, at a line end. When no position is such, among them when other text
  follows every \<open>---global\<close> on its line, the document is not split.
\<close>

theorem split_global_rule:
  "(candidate_at doc i \<and> (\<forall>j<i. \<not> candidate_at doc j) \<longrightarrow>
      (\<exists>ws rest'. drop (i + length globalMarker) doc = ws @ rest' \<and> (\<forall>c\<in>set ws. is_space c) \<and>
           (rest' = [] \<or> is_line_terminator (hd rest')) \<and>
           split_global doc = (take i doc, rest'))) \<and>
   ((\<forall>i. \<not> candidate_at doc i) \<longrightarrow> split_global doc = ([], doc))"
  using split_global_first_candidate split_global_no_candidate by blast

text \<open>
  Claim C8 as stated fails: the line \<open>title ---global\<close> has text before the marker and
  still is the split point; \<open>title \<close> becomes the definitions region.
\<close>

theorem text_before_marker_on_its_line:
  "split_global (''title ---global'' @ [CHR 0x0A] @ ''# A'') = (''title '', [CHR 0x0A] @ ''# A'')"
  by code_simp

text \<open>
  The rule of C8 on two documents: one with text before the marker and white space after
  it, one with text after the marker.
\<close>

theorem split_global_rule_witness:
  "candidate_at (''title ---global  '' @ [CHR 0x0A] @ ''# A'') 6 \<and>
   list_all (\<lambda>j. \<not> candidate_at (''title ---global  '' @ [CHR 0x0A] @ ''# A'') j) [0..<6] \<and>
   fst (split_global (''title ---global  '' @ [CHR 0x0A] @ ''# A'')) = ''title '' \<and>
   (\<forall>i. \<not> candidate_at ''---global x'' i) \<and>
   split_global ''---global x'' = ([], ''---global x'')"
proof -
  let ?d = "''title ---global  '' @ [CHR 0x0A] @ ''# A''"
  have c: "candidate_at ?d 6" by code_simp
  have l: "list_all (\<lambda>j. \<not> candidate_at ?d j) [0..<6]" by code_simp
  then have f: "\<forall>j<6. \<not> candidate_at ?d j" by (simp add: list_all_iff)
  have n: "\<forall>i. \<not> candidate_at ''---global x'' i"
  proof
    fix i
    show "\<not> candidate_at ''---global x'' i"
    proof (cases "i < 3")
      case True
      have "list_all (\<lambda>j. \<not> candidate_at ''---global x'' j) [0..<3]" by code_simp
      then show ?thesis using True by (simp add: list_all_iff)
    next
      case False
      then show ?thesis using candidate_at_bound[of "''---global x''" i] by auto
    qed
  qed
  from split_global_rule[of ?d 6] split_global_rule[of "''---global x''" 0] c f n
  have "(\<exists>ws rest'. drop (6 + length globalMarker) ?d = ws @ rest' \<and> (\<forall>c\<in>set ws. is_space c) \<and>
           (rest' = [] \<or> is_line_terminator (hd rest')) \<and>
           split_global ?d = (take 6 ?d, rest'))"
    and s: "split_global ''---global x'' = ([], ''---global x'')"
    by blast+
  then obtain rest' where "split_global ?d = (take 6 ?d, rest')" by blast
  then have "fst (split_global ?d) = ''title ''" by simp
  then show ?thesis using c l n s by blast
qed

section \<open>Definition blocks\<close>

text \<open>
  \<open>definePattern\<close> read from left to right: the opening tag up to the name, the
  parameters, the rest of the opening tag, the body and the closing tag.
\<close>

lemma definePattern_parts:
  "definePattern =
     Seq (Lit ''<!--'') (Seq (Star Space) (Seq (Lit ''define:'') (Seq (Star Space)
       (Seq (Group 1 (Many1 (Union Word (Chars ''-'')))) (Seq (Opt paramsPart) tailPart)))))"
  by (simp add: definePattern_def)

lemma spaces_then:
  "star_greedy Space (rx_match (Lit ''define:'') k) pre rest cs =
     (if prefix ''define:'' (dropWhile is_space rest)
      then k (rev ''define:'' @ rev (takeWhile is_space rest) @ pre)
             (drop (length ''define:'') (dropWhile is_space rest)) cs
      else None)"
  "star_greedy Space (rx_match (Lit ''enddefine'') k) pre rest cs =
     (if prefix ''enddefine'' (dropWhile is_space rest)
      then k (rev ''enddefine'' @ rev (takeWhile is_space rest) @ pre)
             (drop (length ''enddefine'') (dropWhile is_space rest)) cs
      else None)"
  "star_greedy Space (rx_match (Lit ''-->'') k) pre rest cs =
     (if prefix ''-->'' (dropWhile is_space rest)
      then k (rev ''-->'' @ rev (takeWhile is_space rest) @ pre)
             (drop (length ''-->'') (dropWhile is_space rest)) cs
      else None)"
  "star_greedy Space (rx_match (Lit '','') k) pre rest cs =
     (if prefix '','' (dropWhile is_space rest)
      then k (rev '','' @ rev (takeWhile is_space rest) @ pre)
             (drop (length '','') (dropWhile is_space rest)) cs
      else None)"
  by (rule spaces_then_lit; simp add: is_space_def)+

text \<open>
  The pattern fails where no opening tag begins, and its last part fails where no
  closing tag begins; on a closing tag the last part matches all of it.
\<close>

lemma close_fail:
  assumes "\<not> closes_definition v"
  shows "rx_match closePart k pre v cs = None"
proof (cases "prefix ''<!--'' v")
  case False
  then show ?thesis by simp
next
  case True
  then obtain v' where v: "v = ''<!--'' @ v'" by (auto simp: prefix_def)
  have d: "drop 4 v = v'" using v by simp
  let ?v1 = "dropWhile is_space v'"
  from assms have c: "\<not> (prefix ''enddefine'' ?v1 \<and> prefix ''-->'' (dropWhile is_space (drop 9 ?v1)))"
    unfolding closes_definition_def Let_def d using True by simp
  have l: "length ''enddefine'' = 9" by simp
  have "rx_match closePart k pre v cs =
          star_greedy Space (rx_match (Lit ''enddefine'') (star_greedy Space (rx_match (Lit ''-->'') k)))
            (rev ''<!--'' @ pre) v' cs"
    unfolding v rx_match.simps(5) rx_match_Lit_app rx_match_Seq_fun rx_match_Star_fun ..
  also have "\<dots> = None"
    unfolding spaces_then l using c by auto
  finally show ?thesis .
qed

lemma open_fail:
  assumes "\<not> opens_definition v"
  shows "rx_match definePattern k pre v cs = None"
proof (cases "prefix ''<!--'' v")
  case False
  then show ?thesis unfolding definePattern_parts by simp
next
  case True
  then obtain v' where v: "v = ''<!--'' @ v'" by (auto simp: prefix_def)
  have d: "drop 4 v = v'" using v by simp
  from assms have c: "\<not> prefix ''define:'' (dropWhile is_space v')"
    unfolding opens_definition_def d using True by simp
  show ?thesis
    unfolding definePattern_parts v rx_match.simps(5) rx_match_Lit_app rx_match_Seq_fun
      rx_match_Star_fun spaces_then(1) using c by simp
qed

lemma close_here:
  assumes "list_all is_space ws4" "list_all is_space ws5"
  shows "rx_match closePart k pre (''<!--'' @ ws4 @ ''enddefine'' @ ws5 @ ''-->'' @ R) cs =
           k (rev (''<!--'' @ ws4 @ ''enddefine'' @ ws5 @ ''-->'') @ pre) R cs"
proof -
  have 1: "dropWhile is_space (ws4 @ ''enddefine'' @ ws5 @ ''-->'' @ R) = ''enddefine'' @ ws5 @ ''-->'' @ R"
    "takeWhile is_space (ws4 @ ''enddefine'' @ ws5 @ ''-->'' @ R) = ws4"
    by (rule spaces_dropWhile[OF assms(1)]; simp add: is_space_def)+
  have 2: "dropWhile is_space (ws5 @ ''-->'' @ R) = ''-->'' @ R"
    "takeWhile is_space (ws5 @ ''-->'' @ R) = ws5"
    by (rule spaces_dropWhile[OF assms(2)]; simp add: is_space_def)+
  have e: "drop (length ''enddefine'') (''enddefine'' @ ws5 @ ''-->'' @ R) = ws5 @ ''-->'' @ R" by simp
  have d: "drop (length ''-->'') (''-->'' @ R) = R" by simp
  have p: "prefix ''enddefine'' (''enddefine'' @ ws5 @ ''-->'' @ R)" "prefix ''-->'' (''-->'' @ R)"
    by simp_all
  have "rx_match closePart k pre (''<!--'' @ ws4 @ ''enddefine'' @ ws5 @ ''-->'' @ R) cs =
        k (rev ''-->'' @ rev ws5 @ rev ''enddefine'' @ rev ws4 @ rev ''<!--'' @ pre) R cs"
    unfolding rx_match.simps(5) rx_match_Lit_app rx_match_Seq_fun rx_match_Star_fun
      spaces_then 1 e 2 d if_P[OF p(1)] if_P[OF p(2)] ..
  then show ?thesis by simp
qed


text \<open>
  The end of the opening tag, the body and the closing tag: the lazy body stops at the
  first closing tag.
\<close>

lemma tail_fail:
  assumes "\<not> prefix ''-->'' (dropWhile is_space v)"
  shows "rx_match tailPart k pre v cs = None"
  unfolding rx_match.simps(5) rx_match.simps(3) rx_match_Seq_fun spaces_then(3) using assms by simp

lemma params_fail:
  assumes "\<not> prefix '','' (dropWhile is_space v)"
  shows "rx_match paramsPart k pre v cs = None"
  unfolding rx_match.simps(5) rx_match.simps(3) rx_match_Seq_fun spaces_then(4) using assms by simp

lemma no_closing_beforeD:
  assumes "no_closing_before (length body) (body @ Y)" "body = u @ v" "v \<noteq> []"
  shows "\<not> closes_definition (v @ Y)"
proof -
  have "length u < length body" using assms(2,3) by simp
  then have "\<not> closes_definition (drop (length u) (body @ Y))"
    using assms(1) by (simp add: no_closing_before_def list_all_iff)
  then show ?thesis using assms(2) by simp
qed

lemma no_opening_beforeD:
  assumes "no_opening_before (length a) (a @ Y)" "a = u @ v" "v \<noteq> []"
  shows "\<not> opens_definition (v @ Y)"
proof -
  have "length u < length a" using assms(2,3) by simp
  then have "\<not> opens_definition (drop (length u) (a @ Y))"
    using assms(1) by (simp add: no_opening_before_def list_all_iff)
  then show ?thesis using assms(2) by simp
qed

lemma tail_here:
  assumes ws: "list_all is_space ws3" "list_all is_space ws4" "list_all is_space ws5"
    and body: "no_closing_before (length body)
                 (body @ (''<!--'' @ ws4 @ ''enddefine'' @ ws5 @ ''-->'') @ R)"
  shows "rx_match tailPart accept pre
           (ws3 @ ''-->'' @ body @ (''<!--'' @ ws4 @ ''enddefine'' @ ws5 @ ''-->'') @ R) cs =
         Some (rev (ws3 @ ''-->'' @ body @ (''<!--'' @ ws4 @ ''enddefine'' @ ws5 @ ''-->'')) @ pre,
               R, (3, body) # cs)"
proof -
  let ?CL = "''<!--'' @ ws4 @ ''enddefine'' @ ws5 @ ''-->''"
  let ?X = "body @ ?CL @ R"
  let ?P = "rev ''-->'' @ rev ws3 @ pre"
  let ?K3 = "\<lambda>pre' rest' cs'. rx_match closePart accept pre' rest'
               ((3, rev (take (length pre' - length ?P) pre')) # cs')"
  let ?res = "(rev ?CL @ rev body @ ?P, R, (3, body) # cs)"
  have 1: "dropWhile is_space (ws3 @ ''-->'' @ ?X) = ''-->'' @ ?X"
    "takeWhile is_space (ws3 @ ''-->'' @ ?X) = ws3"
    by (rule spaces_dropWhile[OF ws(1)]; simp add: is_space_def)+
  have d: "drop (length ''-->'') (''-->'' @ ?X) = ?X" by simp
  have p: "prefix ''-->'' (''-->'' @ ?X)" by simp
  have cl: "?CL @ R = ''<!--'' @ ws4 @ ''enddefine'' @ ws5 @ ''-->'' @ R" by simp
  have "star_lazy AnyChar ?K3 ?P (body @ ?CL @ R) cs =
          star_lazy AnyChar ?K3 (rev body @ ?P) (?CL @ R) cs"
  proof (rule star_lazy_skip)
    fix u v assume uv: "body = u @ v" "v \<noteq> []"
    from no_closing_beforeD[OF body this]
    show "?K3 (rev u @ ?P) (v @ ?CL @ R) cs = None" by (rule close_fail)
  qed simp
  also have "\<dots> = Some ?res"
  proof (rule star_lazy_here)
    show "?K3 (rev body @ ?P) (?CL @ R) cs = Some ?res"
      unfolding cl close_here[OF ws(2,3)] by (simp add: accept_def)
  qed
  finally have lazy: "star_lazy AnyChar ?K3 ?P ?X cs = Some ?res" .
  have "rx_match tailPart accept pre (ws3 @ ''-->'' @ ?X) cs =
          rx_match (Group 3 (StarLazy AnyChar)) (rx_match closePart accept) ?P ?X cs"
    unfolding rx_match.simps(5)[of "Star Space"] rx_match.simps(3) rx_match_Seq_fun
      spaces_then(3) 1 d if_P[OF p] ..
  also have "\<dots> = Some ?res" using lazy by simp
  finally show ?thesis by simp
qed


text \<open>
  The parameters: absent when \<^verbatim>\<open>-->\<close> follows the name after white space, and otherwise the
  text after the comma up to the first place where \<^verbatim>\<open>-->\<close> follows after white space.
\<close>

lemma opt_tail_fail:
  assumes "v \<noteq> []" "\<not> is_space (hd v)" "hd v \<noteq> CHR '',''" "\<not> prefix ''-->'' v"
  shows "rx_match (Seq (Opt paramsPart) tailPart) k pre v cs = None"
proof -
  have d: "dropWhile is_space v = v" using assms(1,2) by (cases v) auto
  have c: "\<not> prefix '','' v" using assms(1,3) by (cases v) auto
  have 1: "rx_match paramsPart (rx_match tailPart k) pre v cs = None"
    by (rule params_fail) (simp add: d c)
  have 2: "rx_match tailPart k pre v cs = None"
    by (rule tail_fail) (simp add: d assms(4))
  show ?thesis
    unfolding rx_match.simps(5)[of "Opt paramsPart"] rx_match.simps(7) 1 2 by simp
qed

lemma opt_tail_plain:
  assumes ws: "list_all is_space ws3" "list_all is_space ws4" "list_all is_space ws5"
    and body: "no_closing_before (length body)
                 (body @ (''<!--'' @ ws4 @ ''enddefine'' @ ws5 @ ''-->'') @ R)"
  shows "rx_match (Seq (Opt paramsPart) tailPart) accept pre
           (ws3 @ ''-->'' @ body @ (''<!--'' @ ws4 @ ''enddefine'' @ ws5 @ ''-->'') @ R) cs =
         Some (rev (ws3 @ ''-->'' @ body @ (''<!--'' @ ws4 @ ''enddefine'' @ ws5 @ ''-->'')) @ pre,
               R, (3, body) # cs)"
proof -
  let ?T = "ws3 @ ''-->'' @ body @ (''<!--'' @ ws4 @ ''enddefine'' @ ws5 @ ''-->'') @ R"
  have d: "dropWhile is_space ?T = ''-->'' @ body @ (''<!--'' @ ws4 @ ''enddefine'' @ ws5 @ ''-->'') @ R"
    by (rule spaces_dropWhile[OF ws(1)]; simp add: is_space_def)
  have "\<not> prefix '','' (dropWhile is_space ?T)" unfolding d by simp
  then have 1: "rx_match paramsPart (rx_match tailPart accept) pre ?T cs = None"
    by (rule params_fail)
  show ?thesis
    unfolding rx_match.simps(5)[of "Opt paramsPart"] rx_match.simps(7) 1
      tail_here[OF ws body] by simp
qed

lemma params_endD:
  assumes cond: "list_all (\<lambda>i. \<not> prefix ''-->'' (dropWhile is_space (drop i (p @ ws3 @ ''-->''))))
                   [1..<length p]"
    and p: "p = p0 # pt" "pt = u @ v" "v \<noteq> []"
  shows "\<not> prefix ''-->'' (dropWhile is_space (v @ ws3 @ ''-->'' @ X))"
proof
  assume a: "prefix ''-->'' (dropWhile is_space (v @ ws3 @ ''-->'' @ X))"
  let ?Z = "v @ ws3 @ ''-->''"
  let ?D = "dropWhile is_space ?Z"
  obtain v0 vt where v: "v = v0 # vt" using p(3) by (cases v) auto
  have "length p = Suc (Suc (length u + length vt))" using p(1,2) v by simp
  then have "1 \<le> Suc (length u) \<and> Suc (length u) < length p" by arith
  then have i: "Suc (length u) \<in> set [1..<length p]" unfolding set_upt by simp
  have "drop (Suc (length u)) (p @ ws3 @ ''-->'') = ?Z" using p by simp
  then have n: "\<not> prefix ''-->'' ?D" using cond i unfolding list_all_iff by metis
  have m: "CHR ''-'' \<in> set ?Z" "\<not> is_space CHR ''-''" by (simp_all add: is_space_def)
  have e: "dropWhile is_space (?Z @ X) = ?D @ X"
    by (rule dropWhile_append1[where x = "CHR ''-''" and P = is_space]) (rule m)+
  have "length ?D \<ge> 3"
  proof (cases "\<forall>x\<in>set (v @ ws3). is_space x")
    case True
    then have "dropWhile is_space ((v @ ws3) @ ''-->'') = ''-->''"
      by (subst dropWhile_append2) (auto simp: is_space_def)
    then show ?thesis by simp
  next
    case False
    then obtain x where "x \<in> set (v @ ws3)" "\<not> is_space x" by blast
    then have "dropWhile is_space ((v @ ws3) @ ''-->'') = dropWhile is_space (v @ ws3) @ ''-->''"
      by (rule dropWhile_append1[where x = x and P = is_space])
    then show ?thesis by simp
  qed
  then have "length ''-->'' \<le> length ?D" by simp
  moreover have "prefix ''-->'' (?D @ X)" using a e by simp
  ultimately have "prefix ''-->'' ?D" by (rule prefix_shorter[rotated])
  then show False using n by simp
qed

lemma opt_tail_params:
  assumes ws: "list_all is_space ws3" "list_all is_space ws4" "list_all is_space ws5"
    and wa: "list_all is_space wa" and wb: "list_all is_space wb"
    and p: "p \<noteq> []" "\<not> is_space (hd p)" "list_all (\<lambda>c. \<not> is_line_terminator c) p"
      "list_all (\<lambda>i. \<not> prefix ''-->'' (dropWhile is_space (drop i (p @ ws3 @ ''-->''))))
         [1..<length p]"
    and body: "no_closing_before (length body)
                 (body @ (''<!--'' @ ws4 @ ''enddefine'' @ ws5 @ ''-->'') @ R)"
  shows "rx_match (Seq (Opt paramsPart) tailPart) accept pre
           ((wa @ '','' @ wb @ p) @ ws3 @ ''-->'' @ body @
            (''<!--'' @ ws4 @ ''enddefine'' @ ws5 @ ''-->'') @ R) cs =
         Some (rev ((wa @ '','' @ wb @ p) @ ws3 @ ''-->'' @ body @
                    (''<!--'' @ ws4 @ ''enddefine'' @ ws5 @ ''-->'')) @ pre,
               R, (3, body) # (2, p) # cs)"
proof -
  let ?CL = "''<!--'' @ ws4 @ ''enddefine'' @ ws5 @ ''-->''"
  let ?X = "body @ ?CL @ R"
  let ?A = "ws3 @ ''-->'' @ ?X"
  let ?P1 = "rev '','' @ rev wa @ pre"
  let ?P2 = "rev wb @ ?P1"
  let ?K = "rx_match tailPart accept"
  let ?K2 = "\<lambda>pre' rest' cs'. ?K pre' rest' ((2, rev (take (length pre' - length ?P2) pre')) # cs')"
  let ?res = "(rev (ws3 @ ''-->'' @ body @ ?CL) @ rev p @ ?P2, R, (3, body) # (2, p) # cs)"
  obtain p0 pt where pp: "p = p0 # pt" using p(1) by (cases p) auto
  have dot: "\<forall>x\<in>set p. in_cc Dot x" using p(3) by (simp add: list_all_iff)
  have "star_lazy Dot ?K2 (p0 # ?P2) (pt @ ?A) cs = star_lazy Dot ?K2 (rev pt @ p0 # ?P2) ?A cs"
  proof (rule star_lazy_skip)
    fix u v assume uv: "pt = u @ v" "v \<noteq> []"
    have "\<not> prefix ''-->'' (dropWhile is_space (v @ ws3 @ ''-->'' @ ?X))"
      by (rule params_endD[OF p(4) pp uv])
    then show "?K2 (rev u @ p0 # ?P2) (v @ ?A) cs = None" by (rule tail_fail)
  next
    show "\<forall>x\<in>set pt. in_cc Dot x" using dot pp by simp
  qed
  also have "\<dots> = Some ?res"
  proof (rule star_lazy_here)
    have "?K (rev pt @ p0 # ?P2) ?A ((2, p) # cs) = Some ?res"
      unfolding tail_here[OF ws body] using pp by simp
    then show "?K2 (rev pt @ p0 # ?P2) ?A cs = Some ?res" using pp by simp
  qed
  finally have lazy: "star_lazy Dot ?K2 (p0 # ?P2) (pt @ ?A) cs = Some ?res" .
  have g2: "rx_match (Group 2 (Many1Lazy Dot)) ?K ?P2 (p @ ?A) cs = Some ?res"
    using lazy pp dot by (simp add: Many1Lazy_def)
  have sb: "star_greedy Space (rx_match (Group 2 (Many1Lazy Dot)) ?K) ?P1 (wb @ p @ ?A) cs = Some ?res"
  proof (rule star_greedy_all)
    show "\<forall>x\<in>set wb. in_cc Space x" using wb by (simp add: list_all_iff)
    show "p @ ?A = [] \<or> \<not> in_cc Space (hd (p @ ?A))" using p(1,2) by simp
    show "rx_match (Group 2 (Many1Lazy Dot)) ?K (rev wb @ ?P1) (p @ ?A) cs = Some ?res"
      by (rule g2)
  qed
  let ?T = "wa @ '','' @ (wb @ p @ ?A)"
  have 1: "dropWhile is_space ?T = '','' @ (wb @ p @ ?A)" "takeWhile is_space ?T = wa"
    by (rule spaces_dropWhile[OF wa]; simp add: is_space_def)+
  have d: "drop (length '','') ('','' @ (wb @ p @ ?A)) = wb @ p @ ?A" by simp
  have pf: "prefix '','' ('','' @ (wb @ p @ ?A))" by simp
  have "rx_match paramsPart ?K pre ?T cs =
          star_greedy Space (rx_match (Group 2 (Many1Lazy Dot)) ?K) ?P1 (wb @ p @ ?A) cs"
    unfolding rx_match.simps(5)[of "Star Space"] rx_match.simps(3) rx_match_Seq_fun
      rx_match_Star_fun spaces_then(4) 1 d if_P[OF pf] ..
  then have par: "rx_match paramsPart ?K pre ?T cs = Some ?res" using sb by simp
  have t: "(wa @ '','' @ wb @ p) @ ws3 @ ''-->'' @ body @ ?CL @ R = ?T" by simp
  show ?thesis
    unfolding t rx_match.simps(5)[of "Opt paramsPart"] rx_match.simps(7) par by simp
qed


text \<open>
  The name: the greedy run of word characters and hyphens takes the hyphens of a \<^verbatim>\<open>-->\<close>
  that follows the name directly, and gives them back.
\<close>

lemma name_char_facts:
  assumes "is_word c \<or> c = CHR ''-''"
  shows "\<not> is_space c" "c \<noteq> CHR '',''" "c \<noteq> CHR ''>''"
  using assms by (auto simp: is_word_def is_digit_def is_space_def)

lemma after_name_plain:
  assumes ws: "list_all is_space ws3"
    and uv: "ws3 @ ''-->'' @ X = u @ v" "u \<noteq> []" "\<forall>x\<in>set u. is_word x \<or> x = CHR ''-''"
  shows "v \<noteq> [] \<and> \<not> is_space (hd v) \<and> hd v \<noteq> CHR '','' \<and> \<not> prefix ''-->'' v"
proof -
  obtain y ys where u: "u = y # ys" using uv(2) by (cases u) auto
  have y: "\<not> is_space y" using uv(3) u name_char_facts(1) by simp
  have "ws3 = []"
  proof (cases ws3)
    case (Cons w wt)
    then have "w = y" "is_space w" using uv(1) u ws by auto
    then show ?thesis using y by simp
  qed simp
  then have 1: "''->'' @ X = ys @ v" using uv(1) u by auto
  show ?thesis
  proof (cases ys)
    case Nil
    then have "v = ''->'' @ X" using 1 by simp
    then show ?thesis by (simp add: is_space_def)
  next
    case (Cons z zs)
    then have 2: "''>'' @ X = zs @ v" using 1 by simp
    show ?thesis
    proof (cases zs)
      case Nil
      then have "v = ''>'' @ X" using 2 by simp
      then show ?thesis by (simp add: is_space_def)
    next
      case (Cons q qs)
      then have "q = CHR ''>''" using 2 by simp
      moreover have "is_word q \<or> q = CHR ''-''" using uv(3) u \<open>ys = z # zs\<close> Cons by simp
      ultimately show ?thesis using name_char_facts(3) by blast
    qed
  qed
qed

lemma definePattern_unfolded:
  "rx_match definePattern accept pre (''<!--'' @ T) [] =
          rx_match (Lit ''<!--'') (star_greedy Space (rx_match (Lit ''define:'')
            (star_greedy Space (rx_match (Group 1 (Many1 (Union Word (Chars ''-''))))
               (rx_match (Seq (Opt paramsPart) tailPart) accept))))) pre (''<!--'' @ T) []"
  unfolding definePattern_parts rx_match_Seq_fun rx_match_Star_fun
  by (rule refl)


lemma define_front:
  assumes ws: "list_all is_space ws1" "list_all is_space ws2"
    and name: "name \<noteq> []" "list_all (\<lambda>c. is_word c \<or> c = CHR ''-'') name"
    and here: "rx_match (Seq (Opt paramsPart) tailPart) accept
                 (rev (''<!--'' @ ws1 @ ''define:'' @ ws2 @ name) @ pre) A [(1, name)] = Some res"
    and longer: "\<And>u v P cs. A = u @ v \<Longrightarrow> u \<noteq> [] \<Longrightarrow> \<forall>x\<in>set u. is_word x \<or> x = CHR ''-'' \<Longrightarrow>
                   rx_match (Seq (Opt paramsPart) tailPart) accept P v cs = None"
  shows "rx_match definePattern accept pre (''<!--'' @ ws1 @ ''define:'' @ ws2 @ name @ A) [] =
           Some res"
proof -
  define K where "K = rx_match (Seq (Opt paramsPart) tailPart) accept"
  let ?C = "Union Word (Chars ''-'')"
  let ?P1 = "rev ''define:'' @ rev ws1 @ rev ''<!--'' @ pre"
  let ?P3 = "rev ws2 @ ?P1"
  let ?K1 = "\<lambda>pre' rest' cs'. K pre' rest' ((1, rev (take (length pre' - length ?P3) pre')) # cs')"
  have hereK: "K (rev name @ ?P3) A [(1, name)] = Some res"
    using here unfolding K_def by simp
  have longerK: "\<And>u v P cs. A = u @ v \<Longrightarrow> u \<noteq> [] \<Longrightarrow> \<forall>x\<in>set u. is_word x \<or> x = CHR ''-'' \<Longrightarrow>
                   K P v cs = None"
    unfolding K_def by (rule longer)
  obtain n0 nt where n: "name = n0 # nt" using name(1) by (cases name) auto
  have cl: "\<forall>x\<in>set name. in_cc ?C x" using name(2) by (auto simp: list_all_iff)
  have n0: "\<not> is_space n0" using name(2) n name_char_facts(1) by simp
  have "star_greedy ?C ?K1 (n0 # ?P3) (nt @ A) [] = Some res"
  proof (rule star_greedy_prio)
    show "\<forall>x\<in>set nt. in_cc ?C x" using cl n by simp
    show "?K1 (rev nt @ n0 # ?P3) A [] = Some res" using hereK n by simp
  next
    fix u v assume uv: "A = u @ v" "u \<noteq> []" "\<forall>x\<in>set u. in_cc ?C x"
    then have "\<forall>x\<in>set u. is_word x \<or> x = CHR ''-''" by simp
    from longerK[OF uv(1,2) this]
    show "?K1 (rev u @ rev nt @ n0 # ?P3) v [] = None" .
  qed
  then have g1: "rx_match (Group 1 (Many1 ?C)) K ?P3 (name @ A) [] = Some res"
    using n cl by (simp add: Many1_def)
  have s2: "star_greedy Space (rx_match (Group 1 (Many1 ?C)) K) ?P1 (ws2 @ name @ A) [] = Some res"
  proof (rule star_greedy_all)
    show "\<forall>x\<in>set ws2. in_cc Space x" using ws(2) by (simp add: list_all_iff)
    show "name @ A = [] \<or> \<not> in_cc Space (hd (name @ A))" using n n0 by simp
    show "rx_match (Group 1 (Many1 ?C)) K (rev ws2 @ ?P1) (name @ A) [] = Some res" by (rule g1)
  qed
  let ?T = "ws1 @ ''define:'' @ (ws2 @ name @ A)"
  have 1: "dropWhile is_space ?T = ''define:'' @ (ws2 @ name @ A)" "takeWhile is_space ?T = ws1"
    by (rule spaces_dropWhile[OF ws(1)]; simp add: is_space_def)+
  have d: "drop (length ''define:'') (''define:'' @ (ws2 @ name @ A)) = ws2 @ name @ A" by simp
  have pf: "prefix ''define:'' (''define:'' @ (ws2 @ name @ A))" by simp
  have "rx_match definePattern accept pre (''<!--'' @ ?T) [] =
          rx_match (Lit ''<!--'') (star_greedy Space (rx_match (Lit ''define:'')
            (star_greedy Space (rx_match (Group 1 (Many1 ?C)) K)))) pre (''<!--'' @ ?T) []"
    unfolding K_def by (rule definePattern_unfolded)
  also have "\<dots> = star_greedy Space (rx_match (Group 1 (Many1 ?C)) K) ?P1 (ws2 @ name @ A) []"
    unfolding rx_match_Lit_app spaces_then(1) 1 d if_P[OF pf] ..
  finally show ?thesis using s2 by simp
qed



text \<open>
  A well-formed block followed by any text: the pattern matches the block, no more and no
  less, and the component of the match is the component of the block.
\<close>

lemma after_name_params:
  assumes "list_all is_space wa" "wa @ '','' @ Y = u @ v" "u \<noteq> []"
    "\<forall>x\<in>set u. is_word x \<or> x = CHR ''-''"
  shows False
proof -
  obtain y ys where u: "u = y # ys" using assms(3) by (cases u) auto
  have y: "\<not> is_space y" "y \<noteq> CHR '',''" using assms(4) u name_char_facts by simp_all
  show False
  proof (cases wa)
    case Nil
    then show False using assms(2) u y by simp
  next
    case (Cons w wt)
    then have "w = y" "is_space w" using assms(1,2) u by auto
    then show False using y by simp
  qed
qed

lemma name_trim:
  assumes "name \<noteq> []" "list_all (\<lambda>c. is_word c \<or> c = CHR ''-'') name"
  shows "trim name = name"
proof (rule trim_id[OF assms(1)])
  have a: "\<forall>c\<in>set name. \<not> is_space c"
    using assms(2) name_char_facts(1) by (auto simp: list_all_iff)
  show "\<not> is_space (hd name)" using a assms(1) by simp
  show "\<not> is_space (last name)" using a assms(1) by simp
qed

lemma definePattern_block:
  assumes ok: "block_ok b"
    and body: "no_closing_before (length (b_body b)) (b_body b @ closing_tag b @ R)"
  shows "\<exists>cs. rx_match definePattern accept pre (block_text b @ R) [] =
                 Some (rev (block_text b) @ pre, R, cs) \<and>
              (\<forall>i. defined_component (i, block_text b, cs) = block_component b)"
proof -
  let ?ws1 = "b_ws1 b" and ?ws2 = "b_ws2 b" and ?ws3 = "b_ws3 b" and ?ws4 = "b_ws4 b"
    and ?ws5 = "b_ws5 b" and ?name = "b_name b" and ?body = "b_body b"
  let ?CL = "''<!--'' @ ?ws4 @ ''enddefine'' @ ?ws5 @ ''-->''"
  let ?F = "''<!--'' @ ?ws1 @ ''define:'' @ ?ws2 @ ?name"
  from ok have ws: "list_all is_space ?ws1" "list_all is_space ?ws2" "list_all is_space ?ws3"
      "list_all is_space ?ws4" "list_all is_space ?ws5"
    and name: "?name \<noteq> []" "list_all (\<lambda>c. is_word c \<or> c = CHR ''-'') ?name"
    by (simp_all add: block_ok_def)
  have body': "no_closing_before (length ?body) (?body @ ?CL @ R)"
    using body by (simp add: closing_tag_def)
  note tr = name_trim[OF name]
  show ?thesis
  proof (cases "b_params b")
    case None
    let ?A = "?ws3 @ ''-->'' @ ?body @ ?CL @ R"
    let ?cs = "[(3, ?body), (1, ?name)]"
    let ?res = "(rev (?ws3 @ ''-->'' @ ?body @ ?CL) @ rev ?F @ pre, R, ?cs)"
    have m: "rx_match definePattern accept pre (''<!--'' @ ?ws1 @ ''define:'' @ ?ws2 @ ?name @ ?A) [] =
               Some ?res"
    proof (rule define_front[OF ws(1,2) name])
      show "rx_match (Seq (Opt paramsPart) tailPart) accept (rev ?F @ pre) ?A [(1, ?name)] = Some ?res"
        by (rule opt_tail_plain[OF ws(3,4,5) body'])
    next
      fix u v P cs
      assume uv: "?A = u @ v" "u \<noteq> []" "\<forall>x\<in>set u. is_word x \<or> x = CHR ''-''"
      from after_name_plain[OF ws(3) uv]
      show "rx_match (Seq (Opt paramsPart) tailPart) accept P v cs = None"
        by (intro opt_tail_fail) simp_all
    qed
    have t: "block_text b @ R = ''<!--'' @ ?ws1 @ ''define:'' @ ?ws2 @ ?name @ ?A"
      using None by (simp add: block_text_def opening_tag_def closing_tag_def)
    have r: "rev (block_text b) @ pre = rev (?ws3 @ ''-->'' @ ?body @ ?CL) @ rev ?F @ pre"
      using None by (simp add: block_text_def opening_tag_def closing_tag_def)
    have c: "\<forall>i. defined_component (i, block_text b, ?cs) = block_component b"
      using None by (simp add: defined_component_def group_def block_component_def tr parseParams_def)
    show ?thesis
      by (rule exI[of _ ?cs]) (use m c in \<open>simp only: t r simp_thms\<close>)
  next
    case (Some q)
    obtain wa wb p where q: "q = (wa, wb, p)" by (cases q) auto
    from ok Some q have par: "list_all is_space wa" "list_all is_space wb" "p \<noteq> []"
      "\<not> is_space (hd p)" "list_all (\<lambda>c. \<not> is_line_terminator c) p"
      "list_all (\<lambda>i. \<not> prefix ''-->'' (dropWhile is_space (drop i (p @ ?ws3 @ ''-->''))))
         [1..<length p]"
      by (simp_all add: block_ok_def)
    let ?Y = "wb @ p @ ?ws3 @ ''-->'' @ ?body @ ?CL @ R"
    let ?A = "(wa @ '','' @ wb @ p) @ ?ws3 @ ''-->'' @ ?body @ ?CL @ R"
    let ?cs = "[(3, ?body), (2, p), (1, ?name)]"
    let ?res = "(rev ((wa @ '','' @ wb @ p) @ ?ws3 @ ''-->'' @ ?body @ ?CL) @ rev ?F @ pre, R, ?cs)"
    have A: "?A = wa @ '','' @ ?Y" by simp
    have m: "rx_match definePattern accept pre (''<!--'' @ ?ws1 @ ''define:'' @ ?ws2 @ ?name @ ?A) [] =
               Some ?res"
    proof (rule define_front[OF ws(1,2) name])
      show "rx_match (Seq (Opt paramsPart) tailPart) accept (rev ?F @ pre) ?A [(1, ?name)] = Some ?res"
        by (rule opt_tail_params[OF ws(3,4,5) par body'])
    next
      fix u v P cs
      assume uv: "?A = u @ v" "u \<noteq> []" "\<forall>x\<in>set u. is_word x \<or> x = CHR ''-''"
      from uv(1) have "wa @ '','' @ ?Y = u @ v" unfolding A .
      from after_name_params[OF par(1) this uv(2,3)]
      show "rx_match (Seq (Opt paramsPart) tailPart) accept P v cs = None" ..
    qed
    have t: "block_text b @ R = ''<!--'' @ ?ws1 @ ''define:'' @ ?ws2 @ ?name @ ?A"
      using Some q by (simp add: block_text_def opening_tag_def closing_tag_def)
    have r: "rev (block_text b) @ pre =
               rev ((wa @ '','' @ wb @ p) @ ?ws3 @ ''-->'' @ ?body @ ?CL) @ rev ?F @ pre"
      using Some q by (simp add: block_text_def opening_tag_def closing_tag_def)
    have c: "\<forall>i. defined_component (i, block_text b, ?cs) = block_component b"
      using Some q by (simp add: defined_component_def group_def block_component_def tr)
    show ?thesis
      by (rule exI[of _ ?cs]) (use m c in \<open>simp only: t r simp_thms\<close>)
  qed
qed


text \<open>
  A region of texts and blocks: the matches of \<open>definePattern\<close> are the blocks, in order, and
  the replacement leaves the texts.
\<close>

lemma block_text_nonempty: "block_text b \<noteq> []"
  by (simp add: block_text_def opening_tag_def)

lemma opens_definition_Nil: "\<not> opens_definition []"
  by (simp add: opens_definition_def)

lemma region_scan:
  assumes "well_formed items final"
  shows "\<exists>ms. scan definePattern (rev S) (region_text items final) = ms \<and>
           map defined_component ms = map (\<lambda>x. block_component (snd x)) items \<and>
           splice (\<lambda>mt. []) (S @ region_text items final) (length S) ms =
             without_blocks items final"
  using assms
proof (induction items arbitrary: S)
  case Nil
  then have n: "no_opening_before (length final) (final @ [])" by simp
  have "scan definePattern (rev S) final = []"
  proof (rule scan_end)
    fix u v assume uv: "final = u @ v"
    have "\<not> opens_definition v"
    proof (cases v)
      case Nil
      then show ?thesis by (simp add: opens_definition_Nil)
    next
      case (Cons y ys)
      then have "v \<noteq> []" by simp
      from no_opening_beforeD[OF n uv this] show ?thesis by simp
    qed
    then show "rx_match definePattern accept (rev u @ rev S) v [] = None" by (rule open_fail)
  qed
  then show ?case by (simp add: without_blocks_def)
next
  case (Cons x items)
  obtain a b where x: "x = (a, b)" by (cases x) auto
  let ?R = "region_text items final"
  let ?m = "block_text b"
  from Cons.prems x have ok: "block_ok b"
    and op: "no_opening_before (length a) (a @ ?m @ ?R)"
    and cl: "no_closing_before (length (b_body b)) (b_body b @ closing_tag b @ ?R)"
    and wf: "well_formed items final"
    by simp_all
  from definePattern_block[OF ok cl, of "rev a @ rev S"] obtain cs where
    cs: "rx_match definePattern accept (rev a @ rev S) (?m @ ?R) [] =
           Some (rev ?m @ rev a @ rev S, ?R, cs)"
    and dc: "\<forall>i. defined_component (i, ?m, cs) = block_component b"
    by blast
  have step: "scan definePattern (rev S) (a @ ?m @ ?R) =
                (length (rev S) + length a, ?m, cs) # scan definePattern (rev (a @ ?m) @ rev S) ?R"
  proof (rule scan_step)
    fix u v assume uv: "a = u @ v" "v \<noteq> []"
    from no_opening_beforeD[OF op this]
    show "rx_match definePattern accept (rev u @ rev S) (v @ ?m @ ?R) [] = None"
      by (rule open_fail)
  next
    show "rx_match definePattern accept (rev a @ rev S) (?m @ ?R) [] =
            Some (rev ?m @ rev a @ rev S, ?R, cs)" by (rule cs)
    show "?m \<noteq> []" by (rule block_text_nonempty)
  qed
  from Cons.IH[OF wf, of "S @ a @ ?m"] obtain ms where
    ms: "scan definePattern (rev (S @ a @ ?m)) ?R = ms"
      "map defined_component ms = map (\<lambda>x. block_component (snd x)) items"
      "splice (\<lambda>mt. []) ((S @ a @ ?m) @ ?R) (length (S @ a @ ?m)) ms = without_blocks items final"
    by blast
  have r: "rev (a @ ?m) @ rev S = rev (S @ a @ ?m)" by simp
  let ?mt = "(length S + length a, ?m, cs)"
  have sc: "scan definePattern (rev S) (region_text (x # items) final) = ?mt # ms"
    using step ms(1) unfolding r x by simp
  have mp: "map defined_component (?mt # ms) = map (\<lambda>x. block_component (snd x)) (x # items)"
    using dc ms(2) x by simp
  have T: "S @ region_text (x # items) final = (S @ a @ ?m) @ ?R" using x by simp
  have sp: "splice (\<lambda>mt. []) (S @ region_text (x # items) final) (length S) (?mt # ms) =
              without_blocks (x # items) final"
  proof -
    have "splice (\<lambda>mt. []) (S @ region_text (x # items) final) (length S) (?mt # ms) =
            take (length a) (drop (length S) (S @ a @ ?m @ ?R)) @
            splice (\<lambda>mt. []) ((S @ a @ ?m) @ ?R) (length (S @ a @ ?m)) ms"
      using x by (simp add: m_index_def m_text_def add.assoc)
    also have "\<dots> = a @ without_blocks items final" unfolding ms(3) by simp
    finally show ?thesis using x by (simp add: without_blocks_def)
  qed
  show ?case
    by (rule exI[of _ "?mt # ms"]) (use sc mp sp in blast)
qed

lemma fold_register_own:
  assumes "\<forall>mt\<in>set ms. c_name (defined_component mt) \<noteq> ''__proto__''"
  shows "fold register ms st =
           st\<lparr>st_own := fold (\<lambda>c m. m(c_name c \<mapsto> c)) (map defined_component ms) (st_own st)\<rparr>"
  using assms
proof (induction ms arbitrary: st)
  case Nil
  then show ?case by simp
next
  case (Cons mt ms)
  have 1: "register mt st = st\<lparr>st_own := (st_own st)(c_name (defined_component mt) \<mapsto> defined_component mt)\<rparr>"
    using Cons.prems by (simp add: register_def Let_def)
  have 2: "\<forall>mt\<in>set ms. c_name (defined_component mt) \<noteq> ''__proto__''" using Cons.prems by simp
  show ?case unfolding fold_simps 1 Cons.IH[OF 2] by (simp del: fun_upd_apply)
qed

lemma fold_block_components:
  "fold (\<lambda>c m. m(c_name c \<mapsto> c)) (map (\<lambda>x. block_component (snd x)) items) comps =
     store_blocks (map snd items) comps"
  by (simp add: store_blocks_def fold_map comp_def block_component_def del: fun_upd_apply)

lemma extractDefinitions_region:
  assumes wf: "well_formed items final"
    and names: "list_all (\<lambda>b. b_name b \<noteq> ''__proto__'') (map snd items)"
  shows "extractDefinitions st (region_text items final) =
           (st\<lparr>st_own := store_blocks (map snd items) (st_own st)\<rparr>, without_blocks items final)"
proof -
  from region_scan[OF wf, of "[]"] obtain ms where
    ms: "match_all definePattern (region_text items final) = ms"
      "map defined_component ms = map (\<lambda>x. block_component (snd x)) items"
      "replace_all definePattern (\<lambda>mt. []) (region_text items final) = without_blocks items final"
    by (auto simp: match_all_def replace_all_def)
  have "\<forall>c\<in>set (map defined_component ms). c_name c \<noteq> ''__proto__''"
    unfolding ms(2) using names by (auto simp: list_all_iff block_component_def)
  then have n: "\<forall>mt\<in>set ms. c_name (defined_component mt) \<noteq> ''__proto__''" by simp
  show ?thesis
    unfolding extractDefinitions_def ms(1) ms(3) fold_register_own[OF n] ms(2) fold_block_components ..
qed

text \<open>What the store holds for a name after the blocks are stored.\<close>

lemma store_blocks_lookup:
  "store_blocks bs comps n =
     (case find (\<lambda>b. b_name b = n) (rev bs) of
        Some b \<Rightarrow> Some (block_component b)
      | None \<Rightarrow> comps n)"
proof (induction bs rule: rev_induct)
  case Nil
  then show ?case by (simp add: store_blocks_def)
next
  case (snoc b bs)
  then show ?case by (simp add: store_blocks_def)
qed

text \<open>
  Claim C10, as amended. Let \<open>split_global\<close> cut the document into the definitions region
  and the slides region, and let each of the two regions be a sequence of texts and
  definition blocks with a last text, where no opening tag \<^verbatim>\<open><!-- define:\<close> begins inside a
  text, the parts of each block are what they are called (\<open>block_ok\<close>), and the body of each
  block ends at the first closing tag \<^verbatim>\<open><!-- enddefine -->\<close>. If no block is named
  \<open>__proto__\<close>, then after steps 0 to 0.4 of \<open>parseAndBuild\<close>

  \<^item> the own entries of the component store are those it had before, with the component
    of every block of the definitions region and then of every block of the slides
    region stored under its name, in document order;

  \<^item> so a name maps to the component of the last block that has this name, and keeps the
    entry it had before only when no block has this name;

  \<^item> the prototype of the store is what it was;

  \<^item> the text from which the slides are split is the slides region without its blocks,
    that is, the texts between them, after the global style directives are taken out.
\<close>

theorem definitions_of_both_regions:
  assumes split: "split_global markdown = (region_text gi gf, region_text si sf)"
    and wf: "well_formed gi gf" "well_formed si sf"
    and names: "list_all (\<lambda>b. b_name b \<noteq> ''__proto__'') (map snd (gi @ si))"
  shows "st_own (p_store (parseAndBuild_prelude st markdown)) =
           store_blocks (map snd (gi @ si)) (st_own st) \<and>
         (\<forall>n. st_own (p_store (parseAndBuild_prelude st markdown)) n =
            (case find (\<lambda>b. b_name b = n) (rev (map snd (gi @ si))) of
               Some b \<Rightarrow> Some (block_component b)
             | None \<Rightarrow> st_own st n)) \<and>
         st_proto (p_store (parseAndBuild_prelude st markdown)) = st_proto st \<and>
         p_processedMarkdown (parseAndBuild_prelude st markdown) =
           extractGlobalStyles (without_blocks si sf)"
proof -
  have ng: "list_all (\<lambda>b. b_name b \<noteq> ''__proto__'') (map snd gi)"
    and ns: "list_all (\<lambda>b. b_name b \<noteq> ''__proto__'') (map snd si)"
    using names by simp_all
  let ?st1 = "st\<lparr>st_own := store_blocks (map snd gi) (st_own st)\<rparr>"
  have g: "extractDefinitions st (region_text gi gf) = (?st1, without_blocks gi gf)"
    by (rule extractDefinitions_region[OF wf(1) ng])
  have s: "extractDefinitions ?st1 (region_text si sf) =
             (?st1\<lparr>st_own := store_blocks (map snd si) (st_own ?st1)\<rparr>, without_blocks si sf)"
    by (rule extractDefinitions_region[OF wf(2) ns])
  have c: "store_blocks (map snd si) (store_blocks (map snd gi) (st_own st)) =
             store_blocks (map snd (gi @ si)) (st_own st)"
    by (simp add: store_blocks_def)
  have p: "p_store (parseAndBuild_prelude st markdown) =
             st\<lparr>st_own := store_blocks (map snd (gi @ si)) (st_own st)\<rparr>"
    "p_processedMarkdown (parseAndBuild_prelude st markdown) =
       extractGlobalStyles (without_blocks si sf)"
    unfolding parseAndBuild_prelude_def split Let_def prod.case g s
    by (simp_all add: c)
  show ?thesis unfolding p by (simp add: store_blocks_lookup)
qed

text \<open>
  Claim C10 as stated fails for a block that stands across the \<^verbatim>\<open>---global\<close> line. The
  document below is one definition block from its first to its last character; the split
  leaves the opening tag in the definitions region and the closing tag in the slides
  region, so nothing is stored under the name \<open>a\<close>, and the end of the block, its closing
  tag included, stays in the text from which the slides are split.
\<close>

theorem block_across_the_global_line:
  "''<!-- define: a -->X'' @ [CHR 0x0A] @ ''---global'' @ [CHR 0x0A] @ ''Y<!-- enddefine -->'' =
     region_text [([], spanning_block)] [] \<and>
   well_formed [([], spanning_block)] [] \<and>
   st_own (p_store (parseAndBuild_prelude empty_store
     (''<!-- define: a -->X'' @ [CHR 0x0A] @ ''---global'' @ [CHR 0x0A] @ ''Y<!-- enddefine -->''))) ''a'' =
     None \<and>
   p_processedMarkdown (parseAndBuild_prelude empty_store
     (''<!-- define: a -->X'' @ [CHR 0x0A] @ ''---global'' @ [CHR 0x0A] @ ''Y<!-- enddefine -->'')) =
     [CHR 0x0A] @ ''Y<!-- enddefine -->''"
  by code_simp


text \<open>
  The amended claim C10 on a document with a block \<open>a\<close> in the definitions region and, in
  the slides region, a second block \<open>a\<close> with a position and a block \<open>b\<close> written without
  white space: the store holds the second \<open>a\<close> and \<open>b\<close>, and the slides are split from the
  text around the two blocks.
\<close>

theorem definitions_of_both_regions_witness:
  "split_global
     (''<!-- define: a -->G<!-- enddefine -->'' @ [CHR 0x0A] @ ''---global'' @ [CHR 0x0A] @
      ''# T<!-- define: a, position=top -->S<!-- enddefine --> <!--define:b-->B<!--enddefine-->'') =
     (region_text [([], simple_block ''a'' ''G'')] [CHR 0x0A],
      region_text [([CHR 0x0A] @ ''# T'', positioned_block), ('' '', tight_block)] []) \<and>
   well_formed [([], simple_block ''a'' ''G'')] [CHR 0x0A] \<and>
   well_formed [([CHR 0x0A] @ ''# T'', positioned_block), ('' '', tight_block)] [] \<and>
   st_own (p_store (parseAndBuild_prelude empty_store
     (''<!-- define: a -->G<!-- enddefine -->'' @ [CHR 0x0A] @ ''---global'' @ [CHR 0x0A] @
      ''# T<!-- define: a, position=top -->S<!-- enddefine --> <!--define:b-->B<!--enddefine-->''))) =
     [''a'' \<mapsto> \<lparr>c_name = ''a'', c_template = ''S'', c_position = ''top'', usageCount = 0\<rparr>,
      ''b'' \<mapsto> \<lparr>c_name = ''b'', c_template = ''B'', c_position = ''bottom-right'', usageCount = 0\<rparr>] \<and>
   p_processedMarkdown (parseAndBuild_prelude empty_store
     (''<!-- define: a -->G<!-- enddefine -->'' @ [CHR 0x0A] @ ''---global'' @ [CHR 0x0A] @
      ''# T<!-- define: a, position=top -->S<!-- enddefine --> <!--define:b-->B<!--enddefine-->'')) =
     [CHR 0x0A] @ ''# T ''"
proof -
  define doc where "doc =
     ''<!-- define: a -->G<!-- enddefine -->'' @ [CHR 0x0A] @ ''---global'' @ [CHR 0x0A] @
      ''# T<!-- define: a, position=top -->S<!-- enddefine --> <!--define:b-->B<!--enddefine-->''"
  define gi where "gi = [([] :: string, simple_block ''a'' ''G'')]"
  define si where "si = [([CHR 0x0A] @ ''# T'', positioned_block), ('' '', tight_block)]"
  have split: "split_global doc = (region_text gi [CHR 0x0A], region_text si [])"
    unfolding doc_def gi_def si_def by code_simp
  have wg: "well_formed gi [CHR 0x0A]" unfolding gi_def by code_simp
  have ws: "well_formed si []" unfolding si_def by code_simp
  have names: "list_all (\<lambda>b. b_name b \<noteq> ''__proto__'') (map snd (gi @ si))"
    unfolding gi_def si_def by code_simp
  have ca: "block_component positioned_block =
              \<lparr>c_name = ''a'', c_template = ''S'', c_position = ''top'', usageCount = 0\<rparr>"
    by code_simp
  have cb: "block_component tight_block =
              \<lparr>c_name = ''b'', c_template = ''B'', c_position = ''bottom-right'', usageCount = 0\<rparr>"
    by code_simp
  have na: "b_name (simple_block ''a'' ''G'') = ''a''" "b_name positioned_block = ''a''"
    "b_name tight_block = ''b''"
    by (simp_all add: simple_block_def positioned_block_def tight_block_def)
  have st: "store_blocks (map snd (gi @ si)) (st_own empty_store) =
              [''a'' \<mapsto> block_component positioned_block, ''b'' \<mapsto> block_component tight_block]"
    unfolding gi_def si_def store_blocks_def by (simp add: na empty_store_def)
  have res: "extractGlobalStyles (without_blocks si []) = [CHR 0x0A] @ ''# T ''"
    unfolding si_def by code_simp
  from definitions_of_both_regions[OF split wg ws names, of empty_store]
  have "st_own (p_store (parseAndBuild_prelude empty_store doc)) =
          store_blocks (map snd (gi @ si)) (st_own empty_store)"
    and "p_processedMarkdown (parseAndBuild_prelude empty_store doc) =
           extractGlobalStyles (without_blocks si [])"
    by blast+
  then have "st_own (p_store (parseAndBuild_prelude empty_store doc)) =
          [''a'' \<mapsto> \<lparr>c_name = ''a'', c_template = ''S'', c_position = ''top'', usageCount = 0\<rparr>,
           ''b'' \<mapsto> \<lparr>c_name = ''b'', c_template = ''B'', c_position = ''bottom-right'', usageCount = 0\<rparr>]"
    and "p_processedMarkdown (parseAndBuild_prelude empty_store doc) = [CHR 0x0A] @ ''# T ''"
    unfolding st res ca cb by blast+
  then show ?thesis
    using split wg ws unfolding doc_def gi_def si_def by blast
qed

section \<open>The variable context of a component usage\<close>

text \<open>
  A template without a construct \<^verbatim>\<open>{{#...}}\<close> goes through the six construct passes
  unchanged, so its expansion is the substitution of the variables.
\<close>

lemma renderTemplate_plain:
  assumes "\<And>u v. T = u @ v \<Longrightarrow> \<not> prefix ''{{#'' v"
  shows "renderTemplate ops (Suc d) T vs = Some (substituteVars T vs)"
proof -
  have n: "\<And>w r. match_all (Seq (Lit (''{{#'' @ w)) r) T = []"
    using assms prefix_longer by (intro match_all_Lit_absent) blast
  have 1: "match_all repeatPattern T = []"
    using n[of "''repeat''"] by (simp add: repeatPattern_def)
  have 2: "match_all eqPattern T = []"
    using n[of "''eq''"] by (simp add: eqPattern_def)
  have 3: "match_all neqPattern T = []"
    using n[of "''neq''"] by (simp add: neqPattern_def)
  have 4: "match_all ifPattern T = []"
    using n[of "''if''"] by (simp add: ifPattern_def)
  have 5: "match_all gtPattern T = []"
    using n[of "''gt''"] by (simp add: gtPattern_def)
  have 6: "match_all ltPattern T = []"
    using n[of "''lt''"] by (simp add: ltPattern_def)
  show ?thesis
    by (simp add: processRepeat_def processEq_def processNeq_def processIf_def processGt_def
        processLt_def replace_all_opt_def 1 2 3 4 5 6)
qed

lemma varPattern_here:
  assumes n: "n \<noteq> []" "\<forall>x\<in>set n. is_word x \<or> x = CHR ''-''"
  shows "rx_match varPattern accept pre (''{{'' @ ''$'' @ n @ ''}}'' @ post) [] =
           Some (rev (''{{'' @ ''$'' @ n @ ''}}'') @ pre, post, [(1, ''$'' @ n)])"
proof -
  obtain x w where xw: "n = x # w" using n(1) by (cases n) auto
  let ?c = "Union Word (Chars ''-'')"
  let ?k = "\<lambda>pre' rest' cs'. rx_match (Lit ''}}'') accept pre' rest'
              ((1, rev (take (length pre' - length (rev ''{{'' @ pre)) pre')) # cs')"
  have w: "\<forall>y\<in>set w. in_cc ?c y" and x: "in_cc ?c x" using n(2) xw by auto
  have "star_greedy ?c ?k (x # CHR ''$'' # rev ''{{'' @ pre) (w @ ''}}'' @ post) [] =
          Some (rev (''{{'' @ ''$'' @ n @ ''}}'') @ pre, post, [(1, ''$'' @ n)])"
    by (rule star_greedy_all[OF w]) (simp_all add: accept_def xw is_word_def is_digit_def)
  then show ?thesis using x by (simp add: varPattern_def Many1_def xw)
qed

lemma varPattern_none:
  assumes "CHR ''{'' \<notin> set v"
  shows "rx_match varPattern accept pre (v @ ''{{'' @ b) [] = None \<or> v = []"
    and "rx_match varPattern accept pre v [] = None"
proof -
  show "rx_match varPattern accept pre v [] = None"
    using assms by (cases v) (auto simp: varPattern_def)
  show "rx_match varPattern accept pre (v @ ''{{'' @ b) [] = None \<or> v = []"
    using assms by (cases v) (auto simp: varPattern_def)
qed

lemma substituteVars_one:
  assumes n: "n \<noteq> []" "\<forall>x\<in>set n. is_word x \<or> x = CHR ''-''"
    and pre: "CHR ''{'' \<notin> set pre" and post: "CHR ''{'' \<notin> set post"
  shows "substituteVars (pre @ ''{{'' @ ''$'' @ n @ ''}}'' @ post) vs =
           pre @ (case vs (''$'' @ n) of None \<Rightarrow> ''{{'' @ ''$'' @ n @ ''}}'' | Some v \<Rightarrow> to_string v)
               @ post"
proof -
  define m where "m = ''{{'' @ ''$'' @ n @ ''}}''"
  have "match_all varPattern (pre @ m @ post) = [(length pre, m, [(1, ''$'' @ n)])]"
  proof (rule match_all_single)
    fix u v assume "pre = u @ v" "v \<noteq> []"
    then have "CHR ''{'' \<notin> set v" using pre by auto
    from varPattern_none(1)[OF this, of "rev u @ []" "''$'' @ n @ ''}}'' @ post"] \<open>v \<noteq> []\<close>
    show "rx_match varPattern accept (rev u @ []) (v @ m @ post) [] = None"
      by (simp add: m_def)
  next
    show "rx_match varPattern accept (rev pre @ []) (m @ post) [] =
            Some (rev m @ rev pre @ [], post, [(1, ''$'' @ n)])"
      using varPattern_here[OF n, of "rev pre @ []" post] by (simp add: m_def)
  next
    show "m \<noteq> []" by (simp add: m_def)
  next
    fix u v assume "post = u @ v"
    then have "CHR ''{'' \<notin> set v" using post by auto
    from varPattern_none(2)[OF this]
    show "rx_match varPattern accept (rev u @ rev (pre @ m)) v [] = None" .
  qed
  then have "substituteVars (pre @ m @ post) vs =
               pre @ (case vs (''$'' @ n) of None \<Rightarrow> m | Some v \<Rightarrow> to_string v) @ post"
    by (simp add: substituteVars_def replace_all_def m_index_def m_text_def group_def
        split: option.split)
  then show ?thesis by (simp add: m_def split: option.split)
qed

lemma allVars_lookup:
  "allVars i t g p k =
     (case p k of
        Some v \<Rightarrow> Some (JStr v)
      | None \<Rightarrow> (case g k of Some v \<Rightarrow> Some v | None \<Rightarrow> builtinVars i t k))"
  by (simp add: allVars_def map_add_def split: option.splits)

lemma builtin_template_plain:
  assumes n: "n \<noteq> []" "\<forall>x\<in>set n. is_word x \<or> x = CHR ''-''"
    and pre: "CHR ''{'' \<notin> set pre" and post: "CHR ''{'' \<notin> set post"
    and T: "T = pre @ ''{{'' @ ''$'' @ n @ ''}}'' @ post"
    and uv: "T = u @ v"
  shows "\<not> prefix ''{{#'' v"
proof -
  have "CHR ''{'' \<notin> set (''$'' @ n @ ''}}'' @ post)"
    using n(2) post by (auto simp: is_word_def is_digit_def)
  moreover have "pre @ [CHR ''{'', CHR ''{''] @ (''$'' @ n @ ''}}'' @ post) = u @ v"
    using T uv by simp
  ultimately have "\<not> prefix [CHR ''{'', CHR ''{'', CHR ''#''] v"
    using pre by (intro no_triple[of "CHR ''{''" pre "''$'' @ n @ ''}}'' @ post" "CHR ''#''" u v])
      simp_all
  then show ?thesis by simp
qed

lemma renderTemplate_builtin:
  assumes n: "n \<noteq> []" "\<forall>x\<in>set n. is_word x \<or> x = CHR ''-''"
    and pre: "CHR ''{'' \<notin> set pre" and post: "CHR ''{'' \<notin> set post"
  shows "renderTemplate ops (Suc d) (pre @ ''{{'' @ ''$'' @ n @ ''}}'' @ post) vs =
           Some (pre @ (case vs (''$'' @ n) of None \<Rightarrow> ''{{'' @ ''$'' @ n @ ''}}''
                        | Some v \<Rightarrow> to_string v) @ post)"
proof -
  have "renderTemplate ops (Suc d) (pre @ ''{{'' @ ''$'' @ n @ ''}}'' @ post) vs =
          Some (substituteVars (pre @ ''{{'' @ ''$'' @ n @ ''}}'' @ post) vs)"
    by (rule renderTemplate_plain) (rule builtin_template_plain[OF assms refl])
  then show ?thesis unfolding substituteVars_one[OF assms] .
qed

lemma builtinNames_shape:
  assumes "k \<in> set builtinNames"
  shows "\<exists>n. k = ''$'' @ n \<and> n \<noteq> [] \<and> (\<forall>x\<in>set n. is_word x \<or> x = CHR ''-'')"
proof -
  have "list_all (\<lambda>k. hd k = CHR ''$'' \<and> tl k \<noteq> [] \<and> list_all is_word (tl k)) builtinNames"
    by code_simp
  with assms have "hd k = CHR ''$'' \<and> tl k \<noteq> [] \<and> list_all is_word (tl k)" "k \<noteq> []"
    by (auto simp: list_all_iff builtinNames_def)
  then have "k = ''$'' @ tl k \<and> tl k \<noteq> [] \<and> (\<forall>x\<in>set (tl k). is_word x \<or> x = CHR ''-'')"
    by (cases k) (auto simp: list_all_iff)
  then show ?thesis by blast
qed

text \<open>
  Claim C1, as amended. The context is merged in the order built-in variables, global
  variables, parameters of the usage, a later one replacing an earlier one. For a
  template that shows one built-in variable between texts without braces, the expansion
  has the value of the usage's parameter of that name if there is one, else that of the
  global variable of that name if there is one, and the built-in value only otherwise.
\<close>

theorem variable_context_precedence:
  assumes c: "comps (u_name u) = Some c"
    and T: "c_template c = pre @ ''{{'' @ k @ ''}}'' @ post"
    and k: "k \<in> set builtinNames"
    and pre: "CHR ''{'' \<notin> set pre" and post: "CHR ''{'' \<notin> set post"
  shows "\<exists>b. builtinVars slideIndex totalSlides k = Some b \<and>
           renderedContent ops (Suc d) comps globalVars slideIndex totalSlides u =
             Some (Some (pre @ (case u_params u k of
                                  Some v \<Rightarrow> v
                                | None \<Rightarrow> (case globalVars k of
                                             Some v \<Rightarrow> to_string v
                                           | None \<Rightarrow> to_string b)) @ post))"
proof -
  from builtinNames_shape[OF k] obtain n
    where n: "k = ''$'' @ n" "n \<noteq> []" "\<forall>x\<in>set n. is_word x \<or> x = CHR ''-''" by blast
  from k obtain b where b: "builtinVars slideIndex totalSlides k = Some b"
    by (auto simp: builtinNames_def builtinVars_def)
  let ?vs = "allVars slideIndex totalSlides globalVars (u_params u)"
  let ?out = "case u_params u k of
                Some v \<Rightarrow> v
              | None \<Rightarrow> (case globalVars k of Some v \<Rightarrow> to_string v | None \<Rightarrow> to_string b)"
  have Teq: "c_template c = pre @ ''{{'' @ ''$'' @ n @ ''}}'' @ post" using T n(1) by simp
  have "?vs (''$'' @ n) \<noteq> None"
    using b by (simp add: allVars_lookup n(1) split: option.splits)
  then obtain v where v: "?vs (''$'' @ n) = Some v" by blast
  then have "to_string v = ?out"
    using b by (auto simp: allVars_lookup n(1) split: option.splits)
  moreover have "renderTemplate ops (Suc d) (c_template c) ?vs =
          Some (pre @ (case ?vs (''$'' @ n) of None \<Rightarrow> ''{{'' @ ''$'' @ n @ ''}}''
                       | Some v \<Rightarrow> to_string v) @ post)"
    unfolding Teq by (rule renderTemplate_builtin[OF n(2,3) pre post])
  ultimately have "renderTemplate ops (Suc d) (c_template c) ?vs = Some (pre @ ?out @ post)"
    unfolding v by simp
  then show ?thesis using b c unfolding renderedContent_def by simp
qed

text \<open>
  Claim C1 as stated fails. On the first of three slides \<open>$slideNumber\<close> is 1, but a
  usage whose parameters have the key \<open>$slideNumber\<close>, and likewise a global variable of
  that name, puts its own value 99 into the expansion of \<^verbatim>\<open>{{$slideNumber}}\<close>.
\<close>

theorem user_value_shadows_builtin:
  "renderedContent no_comparison 1 [''pager'' \<mapsto> pager_component] Map.empty 0 3
     (use_of ''pager'' [''$slideNumber'' \<mapsto> ''99'']) = Some (Some ''99'') \<and>
   renderedContent no_comparison 1 [''pager'' \<mapsto> pager_component] [''$slideNumber'' \<mapsto> JNum 99] 0 3
     (use_of ''pager'' Map.empty) = Some (Some ''99'') \<and>
   renderedContent no_comparison 1 [''pager'' \<mapsto> pager_component] Map.empty 0 3
     (use_of ''pager'' Map.empty) = Some (Some ''1'')"
  by code_simp

text \<open>
  The theorem on a component that shows \<open>$totalSlides\<close>, with and without a global
  variable of that name.
\<close>

theorem variable_context_precedence_witness:
  "renderedContent no_comparison 1 [''total'' \<mapsto> total_component] [''$totalSlides'' \<mapsto> JStr ''many''] 0 3
     (use_of ''total'' Map.empty) = Some (Some ''of many.'') \<and>
   renderedContent no_comparison 1 [''total'' \<mapsto> total_component] Map.empty 0 3
     (use_of ''total'' Map.empty) = Some (Some ''of 3.'')"
proof -
  let ?comps = "[''total'' \<mapsto> total_component]"
  let ?u = "use_of ''total'' Map.empty"
  have c: "?comps (u_name ?u) = Some total_component" by (simp add: use_of_def)
  have T: "c_template total_component = ''of '' @ ''{{'' @ ''$totalSlides'' @ ''}}'' @ ''.''"
    by (simp add: total_component_def)
  have k: "''$totalSlides'' \<in> set builtinNames" by (simp add: builtinNames_def)
  have b: "builtinVars 0 3 ''$totalSlides'' = Some (JNum 3)" by (simp add: builtinVars_def)
  have s: "to_string (JNum 3) = ''3''" by code_simp
  have p: "u_params ?u ''$totalSlides'' = None" by (simp add: use_of_def)
  have pre: "CHR ''{'' \<notin> set ''of ''" and post: "CHR ''{'' \<notin> set ''.''" by simp_all
  note r = variable_context_precedence[where comps = ?comps and u = ?u and c = total_component
      and pre = "''of ''" and k = "''$totalSlides''" and post = "''.''" and slideIndex = 0
      and totalSlides = 3 and ops = no_comparison and d = 0, OF c T k pre post]
  from r[of "[''$totalSlides'' \<mapsto> JStr ''many'']"] r[of Map.empty] b s p
  show ?thesis by simp
qed


section \<open>The repeat construct\<close>

text \<open>
  The loop of \<open>_processRepeat\<close> appends the expansions of the body in order, with the loop
  variable counted from its start value.
\<close>

lemma repeat_loop_eq:
  "repeat_loop render body vs k i acc =
     map_option ((@) acc)
       (join_options
          (map (\<lambda>j. render body (vs(''$i'' \<mapsto> JNum (i + int j + 1), ''$i0'' \<mapsto> JNum (i + int j))))
               [0..<k]))"
proof (induction k arbitrary: i acc)
  case 0
  then show ?case by simp
next
  case (Suc k)
  have m: "map (\<lambda>j. render body (vs(''$i'' \<mapsto> JNum (i + int j + 1), ''$i0'' \<mapsto> JNum (i + int j))))
               [0..<Suc k] =
           render body (vs(''$i'' \<mapsto> JNum (i + 1), ''$i0'' \<mapsto> JNum i)) #
           map (\<lambda>j. render body (vs(''$i'' \<mapsto> JNum (i + 1 + int j + 1), ''$i0'' \<mapsto> JNum (i + 1 + int j))))
               [0..<k]"
    unfolding upt_conv_Cons[OF zero_less_Suc] map_Suc_upt[symmetric]
    by (simp add: comp_def ac_simps del: upt_Suc)
  let ?M = "map (\<lambda>j. render body (vs(''$i'' \<mapsto> JNum (i + 1 + int j + 1), ''$i0'' \<mapsto> JNum (i + 1 + int j))))
               [0..<k]"
  show ?case
  proof (cases "render body (vs(''$i'' \<mapsto> JNum (i + 1), ''$i0'' \<mapsto> JNum i))")
    case None
    then show ?thesis unfolding m by simp
  next
    case (Some out)
    have "repeat_loop render body vs (Suc k) i acc =
            repeat_loop render body vs k (i + 1) (acc @ out)"
      using Some by simp
    also have "\<dots> = map_option ((@) (acc @ out)) (join_options ?M)" by (rule Suc.IH)
    also have "\<dots> = map_option ((@) acc) (map_option ((@) out) (join_options ?M))"
      by (cases "join_options ?M") simp_all
    finally show ?thesis unfolding m Some join_options.simps .
  qed
qed

lemma map_option_append_Nil: "map_option ((@) []) x = x"
  by (cases x) simp_all

lemma repeat_loop_spec: "repeat_loop render body vs n 0 [] = spec_repeat render body vs n"
  unfolding repeat_loop_eq spec_repeat_def by (simp add: map_option_append_Nil)

lemma repeat_callback_spec:
  "repeat_callback render vs ce body = spec_construct render body vs (repeat_count ce vs)"
  unfolding repeat_callback_def spec_construct_def repeat_loop_spec ..

text \<open>
  \<open>parseInt\<close> reads the decimal digits at the start of a text as their value, and a text
  that begins with a letter, an underscore or \<open>$\<close> as \<open>NaN\<close>.
\<close>

lemma digit_facts:
  assumes "is_digit c"
  shows "\<not> is_space c" "c \<noteq> CHR ''-''" "c \<noteq> CHR ''+''" "c \<noteq> CHR ''x''" "c \<noteq> CHR ''X''"
    "is_digit_of_base 10 c" "is_word c" "digit_value c = Some (of_char c - 48)"
    "48 \<le> (of_char c :: nat)" "c \<noteq> CHR ''}''"
  using assms
  by (auto simp: is_digit_def is_space_def is_digit_of_base_def digit_value_def is_word_def)

lemma non_digit_base10: "\<not> is_digit c \<Longrightarrow> \<not> is_digit_of_base 10 c"
  by (auto simp: is_digit_def is_digit_of_base_def digit_value_def Let_def split: if_splits)

lemma value_in_base_decimal:
  assumes "\<forall>c\<in>set ds. is_digit c"
  shows "value_in_base 10 ds = decimal_value ds"
  using assms
proof (induction ds rule: rev_induct)
  case Nil
  then show ?case by (simp add: value_in_base_def decimal_value_def)
next
  case (snoc c ds)
  then have c: "is_digit c" and ih: "value_in_base 10 ds = decimal_value ds" by simp_all
  have "int (of_char c - 48 :: nat) = int (of_char c) - 48"
    using digit_facts(9)[OF c] by simp
  then show ?case
    using ih digit_facts(8)[OF c]
    by (simp add: value_in_base_def decimal_value_def ac_simps)
qed

lemma to_number_small: "n < 2 ^ 53 \<Longrightarrow> to_number n = Num n"
  by (simp add: to_number_def)

lemma parseInt_leading_digits:
  assumes ds: "is_literal_count ds"
    and rest: "rest = [] \<or> \<not> is_digit (hd rest)"
    and hex: "\<not> (ds = ''0'' \<and> rest \<noteq> [] \<and> (hd rest = CHR ''x'' \<or> hd rest = CHR ''X''))"
  shows "parseInt (ds @ rest) = to_number (decimal_value ds)"
proof -
  from ds obtain c cs where dcs: "ds = c # cs" and d: "\<forall>x\<in>set ds. is_digit x"
    by (cases ds) (auto simp: is_literal_count_def list_all_iff)
  have c: "is_digit c" using dcs d by simp
  have dw: "dropWhile is_space (ds @ rest) = ds @ rest"
    using digit_facts(1)[OF c] dcs by simp
  have nox: "\<not> prefix ''0x'' (ds @ rest)" "\<not> prefix ''0X'' (ds @ rest)"
  proof -
    show "\<not> prefix ''0x'' (ds @ rest)"
    proof (cases cs)
      case Nil
      then show ?thesis using hex dcs by (cases rest) auto
    next
      case (Cons y ys)
      then have "is_digit y" using d dcs by simp
      then show ?thesis using dcs Cons digit_facts(4) by auto
    qed
    show "\<not> prefix ''0X'' (ds @ rest)"
    proof (cases cs)
      case Nil
      then show ?thesis using hex dcs by (cases rest) auto
    next
      case (Cons y ys)
      then have "is_digit y" using d dcs by simp
      then show ?thesis using dcs Cons digit_facts(5) by auto
    qed
  qed
  have tw: "takeWhile (is_digit_of_base 10) (ds @ rest) = ds"
  proof (cases rest)
    case Nil
    then show ?thesis using d digit_facts(6) by (simp add: takeWhile_eq_all_conv)
  next
    case (Cons y ys)
    then have "\<not> is_digit_of_base 10 y" using rest non_digit_base10 by simp
    then show ?thesis using d digit_facts(6) Cons by (simp add: takeWhile_tail)
  qed
  have "parse_unsigned (ds @ rest) = parse_digits 10 (ds @ rest)"
    unfolding parse_unsigned_def using nox by simp
  then have "parse_unsigned (ds @ rest) = to_number (decimal_value ds)"
    unfolding parse_digits_def tw Let_def using dcs value_in_base_decimal[OF d] by simp
  then show ?thesis
    unfolding parseInt_def dw using digit_facts(2,3)[OF c] by (simp add: dcs)
qed

lemma name_head_facts:
  assumes "is_word c \<or> c = CHR ''$''"
  shows "\<not> is_space c" "c \<noteq> CHR ''-''" "c \<noteq> CHR ''+''" "c \<noteq> CHR ''}''"
    "\<not> is_digit c \<Longrightarrow> c \<noteq> CHR ''0''" "\<not> is_digit c \<Longrightarrow> \<not> is_digit_of_base 10 c"
  using assms
  by (auto simp: is_digit_def is_space_def is_digit_of_base_def digit_value_def is_word_def Let_def)

lemma parseInt_name:
  assumes "is_variable_name ce"
  shows "parseInt ce = NaN"
proof -
  from assms obtain c cs where ce: "ce = c # cs" and c: "is_word c \<or> c = CHR ''$''" "\<not> is_digit c"
    by (cases ce) (auto simp: is_variable_name_def count_chars_def)
  note f = name_head_facts[OF c(1)]
  have "parse_unsigned ce = NaN"
    using f(5,6) c(2) by (simp add: parse_unsigned_def parse_digits_def ce)
  then show ?thesis using f(1,2,3) by (simp add: parseInt_def ce)
qed

lemma repeat_count_literal:
  assumes "is_literal_count ds" "decimal_value ds < 2 ^ 53"
    and "rest = [] \<or> \<not> is_digit (hd rest)"
    and "\<not> (ds = ''0'' \<and> rest \<noteq> [] \<and> (hd rest = CHR ''x'' \<or> hd rest = CHR ''X''))"
  shows "repeat_count (ds @ rest) vs = Num (decimal_value ds)"
  unfolding repeat_count_def parseInt_leading_digits[OF assms(1,3,4)] to_number_small[OF assms(2)]
  by simp

lemma repeat_count_name:
  assumes "is_variable_name ce"
  shows "repeat_count ce vs = (case vs ce of None \<Rightarrow> NaN | Some v \<Rightarrow> parseInt (to_string v))"
  unfolding repeat_count_def parseInt_name[OF assms] by simp

text \<open>The pattern matches a construct as a whole, with the count and the body as its groups.\<close>

lemma closes_firstD:
  assumes "closes_first body" "body = u @ v" "v \<noteq> []"
  shows "\<not> prefix ''{{/repeat}}'' (v @ ''{{/repeat}}'' @ post)"
proof
  assume p: "prefix ''{{/repeat}}'' (v @ ''{{/repeat}}'' @ post)"
  have "length u < length body" using assms(2,3) by simp
  then have "\<not> prefix ''{{/repeat}}'' (drop (length u) body @ ''{{/repeat}}'')"
    using assms(1) by (simp add: closes_first_def list_all_iff)
  then have n: "\<not> prefix ''{{/repeat}}'' (v @ ''{{/repeat}}'')" using assms(2) by simp
  from p have "prefix ''{{/repeat}}'' ((v @ ''{{/repeat}}'') @ post)" by simp
  then have "prefix ''{{/repeat}}'' (v @ ''{{/repeat}}'')"
    by (rule prefix_shorter) simp
  with n show False by simp
qed

lemma digit_run_stops:
  assumes nd: "\<not> (\<forall>x\<in>set ct. is_digit x)"
    and wd: "\<forall>x\<in>set ct. is_word x \<or> x = CHR ''$''"
    and uv: "ct @ after = u @ v" "\<forall>x\<in>set u. is_digit x"
  shows "\<not> prefix ''}}'' v"
proof -
  from uv(1) obtain us where
    "u = ct @ us \<and> us @ v = after \<or> u @ us = ct \<and> v = us @ after"
    unfolding append_eq_append_conv2 by blast
  then have e: "u @ us = ct" "v = us @ after" using nd uv(2) by auto
  then have "us \<noteq> []" using nd uv(2) by auto
  then obtain y ys where y: "us = y # ys" by (cases us) auto
  then have "y \<in> set ct" using e(1) by auto
  then have "y \<noteq> CHR ''}''" using wd name_head_facts(4) by blast
  then show ?thesis using e(2) y by simp
qed

lemma repeatPattern_here:
  assumes ws: "ws \<noteq> []" "\<forall>c\<in>set ws. is_space c"
    and ce: "count_chars ce"
    and body: "closes_first body"
  shows "rx_match repeatPattern accept pre
           (''{{#repeat'' @ ws @ ce @ ''}}'' @ body @ ''{{/repeat}}'' @ post) [] =
         Some (rev (''{{#repeat'' @ ws @ ce @ ''}}'' @ body @ ''{{/repeat}}'') @ pre, post,
               [(2, body), (1, ce)])"
proof -
  let ?close = "''{{/repeat}}''"
  let ?WD = "Union Word (Chars ''$'')"
  let ?P0 = "rev ''{{#repeat'' @ pre"
  let ?P1 = "rev ws @ ?P0"
  let ?P2 = "rev ce @ ?P1"
  let ?P3 = "rev ''}}'' @ ?P2"
  let ?P4 = "rev body @ ?P3"
  let ?res = "(rev ?close @ ?P4, post, [(2, body), (1, ce)])"
  let ?K2 = "\<lambda>pre' rest' cs'. rx_match (Lit ?close) accept pre' rest'
               ((2, rev (take (length pre' - length ?P3) pre')) # cs')"
  let ?tail = "Seq (Lit ''}}'') (Seq (Group 2 (StarLazy AnyChar)) (Lit ?close))"
  let ?K1 = "\<lambda>pre' rest' cs'. rx_match ?tail accept pre' rest'
               ((1, rev (take (length pre' - length ?P1) pre')) # cs')"
  let ?after = "''}}'' @ body @ ?close @ post"
  obtain w0 wt where w: "ws = w0 # wt" using ws(1) by (cases ws) auto
  obtain c0 ct where c: "ce = c0 # ct" using ce by (cases ce) (auto simp: count_chars_def)
  have wd: "\<forall>x\<in>set ce. is_word x \<or> x = CHR ''$''"
    using ce by (auto simp: count_chars_def list_all_iff)
  then have wdc: "\<forall>x\<in>set ce. in_cc ?WD x" by simp
  have c0: "\<not> is_space c0" using wd c name_head_facts(1) by simp
  have "star_lazy AnyChar ?K2 ?P3 (body @ ?close @ post) [(1, ce)] =
          star_lazy AnyChar ?K2 (rev body @ ?P3) (?close @ post) [(1, ce)]"
  proof (rule star_lazy_skip)
    fix u v assume uv: "body = u @ v" "v \<noteq> []"
    from closes_firstD[OF body this]
    show "?K2 (rev u @ ?P3) (v @ ?close @ post) [(1, ce)] = None" by simp
  qed simp
  also have "\<dots> = Some ?res"
    by (rule star_lazy_here) (simp add: accept_def)
  finally have lazy: "star_lazy AnyChar ?K2 ?P3 (body @ ?close @ post) [(1, ce)] = Some ?res" .
  have k1: "?K1 ?P2 ?after [] = Some ?res"
    using lazy by simp
  have second: "rx_match (Many1 ?WD) ?K1 ?P1 (ce @ ?after) [] = Some ?res"
  proof -
    have "star_greedy ?WD ?K1 (c0 # ?P1) (ct @ ?after) [] = Some ?res"
      by (rule star_greedy_all) (use k1 c wdc in \<open>simp_all add: is_word_def is_digit_def\<close>)
    then show ?thesis using c wdc by (simp add: Many1_def)
  qed
  have g1: "rx_match (Alt (Many1 Digit) (Many1 ?WD)) ?K1 ?P1 (ce @ ?after) [] = Some ?res"
  proof (cases "\<forall>x\<in>set ce. is_digit x")
    case True
    then have d: "is_digit c0" "\<forall>x\<in>set ct. in_cc Digit x" using c by auto
    have "star_greedy Digit ?K1 (c0 # ?P1) (ct @ ?after) [] = Some ?res"
      by (rule star_greedy_all[OF d(2)]) (use k1 c in \<open>simp_all add: is_digit_def\<close>)
    then show ?thesis using d(1) c by (simp add: Many1_def)
  next
    case False
    have "rx_match (Many1 Digit) ?K1 ?P1 (ce @ ?after) [] = None"
    proof (cases "is_digit c0")
      case False
      then show ?thesis using c by (simp add: Many1_def)
    next
      case True
      with \<open>\<not> (\<forall>x\<in>set ce. is_digit x)\<close> have nd: "\<not> (\<forall>x\<in>set ct. is_digit x)" using c by simp
      have wt: "\<forall>x\<in>set ct. is_word x \<or> x = CHR ''$''" using wd c by simp
      have "star_greedy Digit ?K1 (c0 # ?P1) (ct @ ?after) [] = None"
        unfolding star_greedy_None_iff
      proof (intro allI impI)
        fix u v assume "ct @ ?after = u @ v \<and> (\<forall>x\<in>set u. in_cc Digit x)"
        then have "\<not> prefix ''}}'' v" using digit_run_stops[OF nd wt, of ?after u v] by simp
        then show "?K1 (rev u @ c0 # ?P1) v [] = None" by simp
      qed
      then show ?thesis using True c by (simp add: Many1_def)
    qed
    then show ?thesis using second by simp
  qed
  let ?K0 = "rx_match (Seq (Group 1 (Alt (Many1 Digit) (Many1 ?WD))) ?tail) accept"
  have k0: "?K0 ?P1 (ce @ ?after) [] = Some ?res" using g1 by simp
  have "star_greedy Space ?K0 (w0 # ?P0) (wt @ ce @ ?after) [] = Some ?res"
    by (rule star_greedy_all) (use k0 w ws(2) c c0 in simp_all)
  then show ?thesis using w ws(2) by (simp add: repeatPattern_def Many1_def)
qed

text \<open>A construct inside a template that has no other opening tag.\<close>

lemma repeatPattern_needs_tag:
  "\<not> prefix ''{{#repeat'' v \<Longrightarrow> rx_match repeatPattern accept p v cs = None"
  by (simp add: repeatPattern_def)

lemma no_tag_beforeD:
  assumes "no_tag_before pre" "pre = u @ v" "v \<noteq> []"
  shows "\<not> prefix ''{{#repeat'' (v @ ''{{#repeat'' @ rest)"
proof
  assume p: "prefix ''{{#repeat'' (v @ ''{{#repeat'' @ rest)"
  have "length u < length pre" using assms(2,3) by simp
  then have "\<not> prefix ''{{#repeat'' (drop (length u) pre @ ''{{#repeat'')"
    using assms(1) by (simp add: no_tag_before_def list_all_iff)
  then have n: "\<not> prefix ''{{#repeat'' (v @ ''{{#repeat'')" using assms(2) by simp
  from p have "prefix ''{{#repeat'' ((v @ ''{{#repeat'') @ rest)" by simp
  then have "prefix ''{{#repeat'' (v @ ''{{#repeat'')" by (rule prefix_shorter) simp
  with n show False by simp
qed

lemma no_tag_inD:
  assumes "no_tag_in post" "post = u @ v"
  shows "\<not> prefix ''{{#repeat'' v"
proof (cases v)
  case Nil
  then show ?thesis by simp
next
  case (Cons y ys)
  then have "length u < length post" using assms(2) by simp
  then have "\<not> prefix ''{{#repeat'' (drop (length u) post)"
    using assms(1) by (simp add: no_tag_in_def list_all_iff)
  then show ?thesis using assms(2) by simp
qed

lemma processRepeat_construct:
  assumes ws: "ws \<noteq> []" "\<forall>c\<in>set ws. is_space c"
    and ce: "count_chars ce"
    and body: "closes_first body"
    and pre: "no_tag_before pre" and post: "no_tag_in post"
  shows "processRepeat render
           (pre @ ''{{#repeat'' @ ws @ ce @ ''}}'' @ body @ ''{{/repeat}}'' @ post) vs =
           map_option (\<lambda>out. pre @ out @ post) (repeat_callback render vs ce body)"
proof -
  define m where "m = ''{{#repeat'' @ ws @ ce @ ''}}'' @ body @ ''{{/repeat}}''"
  have mo: "m = ''{{#repeat'' @ (ws @ ce @ ''}}'' @ body @ ''{{/repeat}}'')" by (simp add: m_def)
  have "match_all repeatPattern (pre @ m @ post) = [(length pre, m, [(2, body), (1, ce)])]"
  proof (rule match_all_single)
    fix u v assume uv: "pre = u @ v" "v \<noteq> []"
    have "\<not> prefix ''{{#repeat'' (v @ m @ post)"
      using no_tag_beforeD[OF pre uv, of "(ws @ ce @ ''}}'' @ body @ ''{{/repeat}}'') @ post"]
      unfolding mo by simp
    then show "rx_match repeatPattern accept (rev u @ []) (v @ m @ post) [] = None"
      by (rule repeatPattern_needs_tag)
  next
    show "rx_match repeatPattern accept (rev pre @ []) (m @ post) [] =
            Some (rev m @ rev pre @ [], post, [(2, body), (1, ce)])"
      using repeatPattern_here[OF ws ce body, of "rev pre @ []" post] by (simp add: m_def)
  next
    show "m \<noteq> []" by (simp add: m_def)
  next
    fix u v assume "post = u @ v"
    from no_tag_inD[OF post this]
    show "rx_match repeatPattern accept (rev u @ rev (pre @ m)) v [] = None"
      by (rule repeatPattern_needs_tag)
  qed
  then have "processRepeat render (pre @ m @ post) vs =
               map_option (\<lambda>out. pre @ out @ post) (repeat_callback render vs ce body)"
    by (cases "repeat_callback render vs ce body")
       (simp_all add: processRepeat_def replace_all_opt_def group_def m_index_def m_text_def)
  then show ?thesis by (simp add: m_def)
qed

text \<open>
  After the opening tag and white space the pattern wants a word character or \<open>$\<close>; with
  another character there the text is no construct.
\<close>

lemma space_is_no_count_char:
  "is_space c \<Longrightarrow> \<not> is_word c \<and> c \<noteq> CHR ''$'' \<and> \<not> is_digit c \<and> c \<noteq> CHR ''{''"
  by (auto simp: is_space_def is_word_def is_digit_def)

lemma repeatPattern_bad_count:
  assumes ws: "\<forall>c\<in>set ws. is_space c"
    and bad: "bad \<noteq> []" "\<not> (is_word (hd bad) \<or> hd bad = CHR ''$'' \<or> is_space (hd bad))"
  shows "rx_match repeatPattern accept p (''{{#repeat'' @ ws @ bad) [] = None"
proof (cases ws)
  case Nil
  then show ?thesis using bad by (cases bad) (auto simp: repeatPattern_def Many1_def)
next
  case (Cons w0 wt)
  let ?WD = "Union Word (Chars ''$'')"
  let ?K = "rx_match (Seq (Group 1 (Alt (Many1 Digit) (Many1 ?WD)))
              (Seq (Lit ''}}'') (Seq (Group 2 (StarLazy AnyChar)) (Lit ''{{/repeat}}'')))) accept"
  obtain b0 bt where b: "bad = b0 # bt" using bad(1) by (cases bad) auto
  have b0: "\<not> is_word b0" "b0 \<noteq> CHR ''$''" "\<not> is_space b0" using bad(2) b by simp_all
  then have b0d: "\<not> is_digit b0" by (auto simp: is_word_def)
  have "star_greedy Space ?K (w0 # rev ''{{#repeat'' @ p) (wt @ bad) [] = None"
    unfolding star_greedy_None_iff
  proof (intro allI impI)
    fix u v assume uv: "wt @ bad = u @ v \<and> (\<forall>x\<in>set u. in_cc Space x)"
    then obtain us where
      "u = wt @ us \<and> us @ v = bad \<or> u @ us = wt \<and> v = us @ bad"
      unfolding append_eq_append_conv2 by blast
    then have "v \<noteq> [] \<and> \<not> is_digit (hd v) \<and> \<not> is_word (hd v) \<and> hd v \<noteq> CHR ''$''"
    proof (elim disjE conjE)
      assume e: "u = wt @ us" "us @ v = bad"
      have "us = []"
      proof (cases us)
        case (Cons y ys)
        then have "y = b0" using e(2) b by simp
        moreover have "is_space y" using uv e(1) Cons by simp
        ultimately show ?thesis using b0(3) by simp
      qed simp
      then show ?thesis using e(2) b b0 b0d by simp
    next
      assume e: "u @ us = wt" "v = us @ bad"
      show ?thesis
      proof (cases us)
        case Nil
        then show ?thesis using e(2) b b0 b0d by simp
      next
        case (Cons y ys)
        then have "is_space y" using e(1) ws \<open>ws = w0 # wt\<close> by auto
        then show ?thesis using e(2) Cons space_is_no_count_char by simp
      qed
    qed
    then show "?K (rev u @ w0 # rev ''{{#repeat'' @ p) v [] = None"
      by (cases v) (simp_all add: Many1_def)
  qed
  then show ?thesis using Cons ws by (simp add: repeatPattern_def Many1_def)
qed

lemma inside_opening_tag:
  assumes "0 < k" "k < 9"
  shows "\<not> prefix ''{{#repeat'' (drop k ''{{#repeat'' @ R)"
proof -
  from assms consider "k = 1" | "k = 2" | "k = 3" | "k = 4" | "k = 5" | "k = 6" | "k = 7" | "k = 8"
    by linarith
  then show ?thesis by cases simp_all
qed

lemma suffix_of_spaces_and_text:
  assumes ws: "\<forall>c\<in>set ws. is_space c" and bad: "no_tag_in bad" and uv: "ws @ bad = u @ v"
  shows "\<not> prefix ''{{#repeat'' v"
proof -
  from uv obtain us where
    "ws = u @ us \<and> us @ bad = v \<or> ws @ us = u \<and> bad = us @ v"
    unfolding append_eq_append_conv2 by blast
  then show ?thesis
  proof (elim disjE conjE)
    assume e: "ws = u @ us" "us @ bad = v"
    show ?thesis
    proof (cases us)
      case Nil
      then show ?thesis using e(2) no_tag_inD[OF bad, of "[]" bad] by simp
    next
      case (Cons y ys)
      then have "is_space y" using e(1) ws by simp
      then have "y \<noteq> CHR ''{''" using space_is_no_count_char by blast
      then show ?thesis using e(2) Cons by auto
    qed
  next
    assume "ws @ us = u" "bad = us @ v"
    then show ?thesis using no_tag_inD[OF bad] by blast
  qed
qed

lemma processRepeat_no_construct:
  assumes ws: "\<forall>c\<in>set ws. is_space c"
    and bad: "bad \<noteq> []" "\<not> (is_word (hd bad) \<or> hd bad = CHR ''$'' \<or> is_space (hd bad))"
    and tags: "no_tag_before pre" "no_tag_in bad"
  shows "processRepeat render (pre @ ''{{#repeat'' @ ws @ bad) vs =
           Some (pre @ ''{{#repeat'' @ ws @ bad)"
proof -
  define tg :: string where "tg = ''{{#repeat''"
  have ltg: "length tg = 9" by (simp add: tg_def)
  let ?T = "pre @ tg @ ws @ bad"
  have "search repeatPattern [] ?T = None"
  proof (rule search_fail)
    fix u v assume uv: "?T = u @ v"
    have v: "v = drop (length u) ?T" using uv by (metis append_eq_conv_conj)
    consider "length u < length pre" | "length u = length pre"
      | "length pre < length u" "length u < length pre + 9" | "length pre + 9 \<le> length u"
      by linarith
    then have "\<not> prefix tg v \<or> v = tg @ ws @ bad"
    proof cases
      case 1
      then have "pre = take (length u) pre @ drop (length u) pre" "drop (length u) pre \<noteq> []"
        by simp_all
      from no_tag_beforeD[OF tags(1) this, of "ws @ bad"]
      show ?thesis using v 1 by (simp add: tg_def)
    next
      case 2
      then show ?thesis using v by simp
    next
      case 3
      define k where "k = length u - length pre"
      have k: "0 < k" "k < 9" using 3 by (simp_all add: k_def)
      have "v = drop k tg @ (ws @ bad)" using v 3 ltg by (simp add: k_def)
      moreover have "\<not> prefix tg (drop k tg @ (ws @ bad))"
        unfolding tg_def using k by (rule inside_opening_tag)
      ultimately show ?thesis by blast
    next
      case 4
      then have "v = drop (length u - length pre - 9) (ws @ bad)" using v ltg by simp
      then have "ws @ bad = take (length u - length pre - 9) (ws @ bad) @ v"
        by (simp only: append_take_drop_id)
      from suffix_of_spaces_and_text[OF ws tags(2) this]
      show ?thesis by (simp add: tg_def)
    qed
    then show "rx_match repeatPattern accept (rev u @ []) v [] = None"
    proof
      assume "\<not> prefix tg v"
      then show ?thesis unfolding tg_def by (rule repeatPattern_needs_tag)
    next
      assume "v = tg @ ws @ bad"
      then show ?thesis using repeatPattern_bad_count[OF ws bad] by (simp add: tg_def)
    qed
  qed
  then have "match_all repeatPattern ?T = []" by (simp add: match_all_def scan_None)
  then have "processRepeat render ?T vs = Some ?T"
    by (simp add: processRepeat_def replace_all_opt_def)
  then show ?thesis by (simp add: tg_def)
qed

text \<open>The example of the specification, at every depth from 2 on and in every context.\<close>

lemma no_tags_Nil: "no_tag_before []" "no_tag_in []"
  by (simp_all add: no_tag_before_def no_tag_in_def)

lemma repeat_example:
  "renderTemplate ops (Suc (Suc d)) ''{{#repeat 3}}#{{$i}} {{/repeat}}'' vs = Some ''#1 #2 #3 ''"
proof -
  let ?T = "''{{#repeat 3}}#{{$i}} {{/repeat}}''"
  let ?R = "''#1 #2 #3 ''"
  let ?render = "renderTemplate ops (Suc d)"
  have T: "?T = [] @ ''{{#repeat'' @ '' '' @ ''3'' @ ''}}'' @ ''#{{$i}} '' @ ''{{/repeat}}'' @ []"
    by simp
  have l: "is_literal_count ''3''" by code_simp
  have cc: "count_chars ''3''" by code_simp
  have b: "closes_first ''#{{$i}} ''" by code_simp
  have w: "'' '' \<noteq> []" "\<forall>c\<in>set '' ''. is_space c" by (simp_all add: is_space_def)
  have dv: "decimal_value ''3'' = 3" by code_simp
  have n: "repeat_count ''3'' vs = Num 3"
    using repeat_count_literal[of "''3''" "[]" vs] l dv by simp
  have body: "?render ''#{{$i}} '' (vs(''$i'' \<mapsto> JNum (int j + 1), ''$i0'' \<mapsto> JNum (int j))) =
                Some (''#'' @ show_int (int j + 1) @ '' '')" for j
    using renderTemplate_builtin[of "''i''" "''#''" "'' ''" ops d
            "vs(''$i'' \<mapsto> JNum (int j + 1), ''$i0'' \<mapsto> JNum (int j))"]
    by (simp add: is_word_def is_digit_def)
  have s: "show_int 1 = ''1''" "show_int 2 = ''2''" "show_int 3 = ''3''" by code_simp+
  have "spec_repeat ?render ''#{{$i}} '' vs 3 = Some ?R"
    unfolding spec_repeat_def body by (simp add: numeral_3_eq_3 s)
  then have "spec_construct ?render ''#{{$i}} '' vs (Num 3) = Some ?R"
    by (simp add: spec_construct_def)
  then have r1: "processRepeat ?render ?T vs = Some ?R"
    unfolding T processRepeat_construct[OF w cc b no_tags_Nil] repeat_callback_spec n
    by simp
  have m: "match_all eqPattern ?R = []" "match_all neqPattern ?R = []" "match_all ifPattern ?R = []"
    "match_all gtPattern ?R = []" "match_all ltPattern ?R = []" "match_all varPattern ?R = []"
    by code_simp+
  have p: "processEq ?render ?R vs = Some ?R" "processNeq ?render ?R vs = Some ?R"
    "processIf ?render ?R vs = Some ?R" "processGt ops ?render ?R vs = Some ?R"
    "processLt ops ?render ?R vs = Some ?R" "substituteVars ?R vs = ?R"
    by (simp_all add: processEq_def processNeq_def processIf_def processGt_def processLt_def
        substituteVars_def replace_all_opt_def replace_all_def m)
  show ?thesis
    by (simp only: renderTemplate.simps(2) r1 p option.case)
qed

text \<open>
  Claim C7 as stated fails. The count \<open>3abc\<close> is no literal integer, but \<open>parseInt\<close> reads
  it as 3: the body comes three times, whether the context has a variable \<open>3abc\<close> (here
  with the value 5) or not. And with the count \<open>-1\<close>, which is not positive, the text is
  not replaced by the empty string but left as it is.
\<close>

theorem repeat_count_not_as_claimed:
  "renderTemplate no_comparison 2 ''{{#repeat 3abc}}x{{/repeat}}'' [''3abc'' \<mapsto> JStr ''5''] =
     Some ''xxx'' \<and>
   renderTemplate no_comparison 2 ''{{#repeat 3abc}}x{{/repeat}}'' Map.empty = Some ''xxx'' \<and>
   renderTemplate no_comparison 2 ''{{#repeat -1}}x{{/repeat}}'' Map.empty =
     Some ''{{#repeat -1}}x{{/repeat}}''"
  by code_simp

text \<open>
  Claim C7, as amended. A construct is \<^verbatim>\<open>{{#repeat\<close>, white space, a count expression \<open>E\<close>
  that is a run of word characters and \<open>$\<close>, \<^verbatim>\<open>}}\<close>, a body that ends at the first
  \<^verbatim>\<open>{{/repeat}}\<close>, and that closing tag; it stands in a template with no other opening tag
  \<^verbatim>\<open>{{#repeat\<close> before or after it. \<open>_processRepeat\<close> replaces it by the body instantiated
  \<open>N\<close> times, each instance expanded by the interpreter under the context extended with
  \<open>$i\<close> and \<open>$i0\<close>, by the empty string when \<open>N\<close> is \<open>NaN\<close> or not positive, and does not
  return for \<open>N\<close> above \<open>2^53\<close>. \<open>N\<close> is \<open>repeat_count\<close>: for a literal integer below \<open>2^53\<close> its
  value; for digits followed by another character (not \<open>0x\<close>) the value of the digits,
  whatever the context holds; for a name that does not begin with a digit \<open>parseInt\<close> of
  the value of the variable of that name, and \<open>NaN\<close> without such a variable. When the
  white space is followed by a character that is none of these (as in \<open>-1\<close>), the text is
  no construct and is left as it is. The template \<^verbatim>\<open>{{#repeat 3}}#{{$i}} {{/repeat}}\<close>
  expands to \<^verbatim>\<open>#1 #2 #3 \<close>.
\<close>

theorem repeat_construct_expansion:
  assumes "ws \<noteq> []" and "\<forall>c\<in>set ws. is_space c"
    and "count_chars ce" and "closes_first body"
    and "no_tag_before pre" and "no_tag_in post"
  shows "processRepeat (renderTemplate ops depth)
           (pre @ ''{{#repeat'' @ ws @ ce @ ''}}'' @ body @ ''{{/repeat}}'' @ post) vs =
           map_option (\<lambda>out. pre @ out @ post)
             (spec_construct (renderTemplate ops depth) body vs (repeat_count ce vs)) \<and>
         (is_literal_count ce \<and> decimal_value ce < 2 ^ 53 \<longrightarrow>
            repeat_count ce vs = Num (decimal_value ce)) \<and>
         (is_variable_name ce \<longrightarrow>
            repeat_count ce vs = (case vs ce of None \<Rightarrow> NaN | Some v \<Rightarrow> parseInt (to_string v))) \<and>
         (\<forall>ds c r. ce = ds @ c # r \<and> is_literal_count ds \<and> decimal_value ds < 2 ^ 53 \<and>
                   \<not> is_digit c \<and> \<not> (ds = ''0'' \<and> (c = CHR ''x'' \<or> c = CHR ''X'')) \<longrightarrow>
            repeat_count ce vs = Num (decimal_value ds)) \<and>
         (\<forall>bad. bad \<noteq> [] \<and> \<not> (is_word (hd bad) \<or> hd bad = CHR ''$'' \<or> is_space (hd bad)) \<and>
                no_tag_in bad \<longrightarrow>
            processRepeat (renderTemplate ops depth) (pre @ ''{{#repeat'' @ ws @ bad) vs =
              Some (pre @ ''{{#repeat'' @ ws @ bad)) \<and>
         renderTemplate ops (Suc (Suc d)) ''{{#repeat 3}}#{{$i}} {{/repeat}}'' vs' =
           Some ''#1 #2 #3 ''"
proof (intro conjI allI impI)
  show "processRepeat (renderTemplate ops depth)
           (pre @ ''{{#repeat'' @ ws @ ce @ ''}}'' @ body @ ''{{/repeat}}'' @ post) vs =
           map_option (\<lambda>out. pre @ out @ post)
             (spec_construct (renderTemplate ops depth) body vs (repeat_count ce vs))"
    unfolding processRepeat_construct[OF assms] repeat_callback_spec ..
next
  assume "is_literal_count ce \<and> decimal_value ce < 2 ^ 53"
  then show "repeat_count ce vs = Num (decimal_value ce)"
    using repeat_count_literal[of ce "[]" vs] by simp
next
  assume "is_variable_name ce"
  then show "repeat_count ce vs = (case vs ce of None \<Rightarrow> NaN | Some v \<Rightarrow> parseInt (to_string v))"
    by (rule repeat_count_name)
next
  fix ds c r
  assume a: "ce = ds @ c # r \<and> is_literal_count ds \<and> decimal_value ds < 2 ^ 53 \<and>
             \<not> is_digit c \<and> \<not> (ds = ''0'' \<and> (c = CHR ''x'' \<or> c = CHR ''X''))"
  then show "repeat_count ce vs = Num (decimal_value ds)"
    using repeat_count_literal[of ds "c # r" vs] by simp
next
  fix bad
  assume "bad \<noteq> [] \<and> \<not> (is_word (hd bad) \<or> hd bad = CHR ''$'' \<or> is_space (hd bad)) \<and>
          no_tag_in bad"
  then show "processRepeat (renderTemplate ops depth) (pre @ ''{{#repeat'' @ ws @ bad) vs =
               Some (pre @ ''{{#repeat'' @ ws @ bad)"
    using processRepeat_no_construct[OF assms(2) _ _ assms(5)] by blast
next
  show "renderTemplate ops (Suc (Suc d)) ''{{#repeat 3}}#{{$i}} {{/repeat}}'' vs' =
          Some ''#1 #2 #3 ''"
    by (rule repeat_example)
qed

text \<open>
  The theorem on a construct with the count \<open>n\<close> between the text \<open>a\<close> and a stray closing
  tag, on the counts \<open>3abc\<close> and \<open>16\<close>, and on a text with the count \<open>-1\<close>.
\<close>

theorem repeat_construct_expansion_witness:
  "processRepeat (renderTemplate no_comparison 1)
     (''a '' @ ''{{#repeat'' @ ''  '' @ ''n'' @ ''}}'' @ ''xy'' @ ''{{/repeat}}'' @ ''{{/repeat}}'')
     [''n'' \<mapsto> JStr ''2''] = Some ''a xyxy{{/repeat}}'' \<and>
   repeat_count ''n'' [''n'' \<mapsto> JStr ''2''] = Num 2 \<and>
   repeat_count ''3abc'' [''3abc'' \<mapsto> JStr ''5''] = Num 3 \<and>
   repeat_count ''16'' Map.empty = Num 16 \<and>
   processRepeat (renderTemplate no_comparison 1) (''a '' @ ''{{#repeat'' @ ''  '' @ ''-1}}x{{/repeat}}'')
     [''n'' \<mapsto> JStr ''2''] = Some (''a '' @ ''{{#repeat'' @ ''  '' @ ''-1}}x{{/repeat}}'')"
proof -
  let ?vs = "[''n'' \<mapsto> JStr ''2'']"
  have w: "''  '' \<noteq> []" "\<forall>c\<in>set ''  ''. is_space c" by (simp_all add: is_space_def)
  have c1: "count_chars ''n''" and c2: "count_chars ''3abc''" and c3: "count_chars ''16''"
    by code_simp+
  have b: "closes_first ''xy''" by code_simp
  have t: "no_tag_before ''a ''" "no_tag_in ''{{/repeat}}''" by code_simp+
  have v: "is_variable_name ''n''" by code_simp
  have l: "is_literal_count ''16'' \<and> decimal_value ''16'' < 2 ^ 53" by code_simp
  have d16: "decimal_value ''16'' = 16" by code_simp
  have p: "''3abc'' = ''3'' @ CHR ''a'' # ''bc'' \<and> is_literal_count ''3'' \<and>
           decimal_value ''3'' < 2 ^ 53 \<and> \<not> is_digit CHR ''a'' \<and>
           \<not> (''3'' = ''0'' \<and> (CHR ''a'' = CHR ''x'' \<or> CHR ''a'' = CHR ''X''))"
    by code_simp
  have d3: "decimal_value ''3'' = 3" by code_simp
  have bad: "''-1}}x{{/repeat}}'' \<noteq> [] \<and>
             \<not> (is_word (hd ''-1}}x{{/repeat}}'') \<or> hd ''-1}}x{{/repeat}}'' = CHR ''$'' \<or>
                is_space (hd ''-1}}x{{/repeat}}'')) \<and> no_tag_in ''-1}}x{{/repeat}}''"
    by code_simp
  have n2: "parseInt (to_string (JStr ''2'')) = Num 2" by code_simp
  have r: "spec_construct (renderTemplate no_comparison 1) ''xy'' ?vs (Num 2) = Some ''xyxy''"
    by code_simp
  note t1 = repeat_construct_expansion[where ops = no_comparison and depth = 1 and d = 0
      and vs = ?vs and vs' = Map.empty, OF w c1 b t]
  note t2 = repeat_construct_expansion[where ops = no_comparison and depth = 1 and d = 0
      and vs = "[''3abc'' \<mapsto> JStr ''5'']" and vs' = Map.empty, OF w c2 b t]
  note t3 = repeat_construct_expansion[where ops = no_comparison and depth = 1 and d = 0
      and vs = Map.empty and vs' = Map.empty, OF w c3 b t]
  from t1 v n2 have cn: "repeat_count ''n'' ?vs = Num 2" by simp
  from t1 cn r have e1: "processRepeat (renderTemplate no_comparison 1)
     (''a '' @ ''{{#repeat'' @ ''  '' @ ''n'' @ ''}}'' @ ''xy'' @ ''{{/repeat}}'' @ ''{{/repeat}}'')
     ?vs = Some ''a xyxy{{/repeat}}''" by simp
  from t2 p d3 have e2: "repeat_count ''3abc'' [''3abc'' \<mapsto> JStr ''5''] = Num 3" by metis
  from t3 l d16 have e3: "repeat_count ''16'' Map.empty = Num 16" by simp
  from t1 bad have e4: "processRepeat (renderTemplate no_comparison 1)
       (''a '' @ ''{{#repeat'' @ ''  '' @ ''-1}}x{{/repeat}}'') ?vs =
       Some (''a '' @ ''{{#repeat'' @ ''  '' @ ''-1}}x{{/repeat}}'')" by blast
  show ?thesis using e1 cn e2 e3 e4 by blast
qed


section \<open>Step markers and highlight spans inside code\<close>

text \<open>
  Claim C2: markers inside fenced or inline code are never interpreted. The code does
  interpret them. \<open>parseAndRender\<close> and \<open>_parseHighlights\<close> match on the text as it stands:

  \<^item> in \<open>code_slide\<close> the step marker inside the fenced block splits the text into two
    steps, each step counts one highlight, and both tags are wrapped into spans;

  \<^item> in \<open>fence_slide\<close> the tag inside the intact fenced block is counted as a highlight and
    wrapped; the Markdown parser protects the block only afterwards, and the code it
    shows is the escaped markup of the span, so the step block has no highlight element;

  \<^item> in \<open>fence_then_step\<close>, with two step blocks that have no highlight element, going
    back from the second step to the first throws a \<open>TypeError\<close>.
\<close>

theorem markers_inside_code_are_interpreted:
  "map s_content (validSteps default_options code_slide) =
     [''Markers:'' @ [CHR 0x0A] @ ''```html'' @ [CHR 0x0A] @ ''<p>'' @ [CHR 0x0A],
      [CHR 0x0A] @ ''```'' @ [CHR 0x0A] @ ''and `<b>`.''] \<and>
   highlightsPerStep (parsedSlideState default_options code_slide) = [1, 1] \<and>
   highlightedSteps default_options code_slide =
     [''Markers:'' @ [CHR 0x0A] @ ''```html'' @ [CHR 0x0A] @ span_open 0 @ ''p</span>'' @ [CHR 0x0A],
      [CHR 0x0A] @ ''```'' @ [CHR 0x0A] @ ''and `'' @ span_open 0 @ ''b</span>`.''] \<and>
   highlightsPerStep (parsedSlideState default_options fence_slide) = [1] \<and>
   highlightedSteps default_options fence_slide =
     [''```html'' @ [CHR 0x0A] @ span_open 0 @ ''p</span>'' @ [CHR 0x0A] @ ''```''] \<and>
   map protectCodeBlocks (highlightedSteps default_options fence_slide) =
     [(''%%%MATCHA-CODE-BLOCK-0%%%'',
       [''<pre><code class='' @ [dq] @ ''language-html'' @ [dq] @ ''>'' @
        ''&lt;span class=&quot;matcha-highlight&quot; data-highlight-index=&quot;0&quot;&gt;'' @
        ''p&lt;/span&gt;</code></pre>''])] \<and>
   highlightsPerStep (parsedSlideState default_options fence_then_step) = [1, 0] \<and>
   snd (prevStep (showAllSteps
          (initSlide [plain_block 0, plain_block 0]
             (Some (parsedSlideState default_options fence_then_step))))) = Inl TypeError"
  by code_simp

end
